theory Spec2Isabelle
  imports Complex_Main "HOL-Library.Word" "HOL-Library.Log_Nat"
begin

section \<open>The string table of \<^verbatim>\<open>stringTable.cpp\<close>\<close>

text \<open>
  The development embeds \<^verbatim>\<open>src/hotspot/share/classfile/stringTable.cpp\<close>: the static
  state of \<^verbatim>\<open>StringTable\<close> is one record, every function takes the state and returns
  the new one, and a fatal exit of the VM is the left summand of the result.
  The calls of \<^verbatim>\<open>stringTable.cpp\<close> run one after the other here: a call is
  never interleaved with another thread's call.
\<close>

subsection \<open>Values of type \<^verbatim>\<open>double\<close>\<close>

text \<open>
  \<^verbatim>\<open>get_load_factor\<close> and \<^verbatim>\<open>get_dead_factor\<close> convert two \<^verbatim>\<open>size_t\<close> values to
  \<^verbatim>\<open>double\<close> and divide them. A finite double is the rational number it denotes; a
  conversion and a division round to the nearest number with a 53-bit significand, ties
  to even. The exponent is not bounded: the values that occur lie between \<open>2\<^sup>-\<^sup>6\<^sup>4\<close> and
  \<open>2\<^sup>6\<^sup>4\<close>, well inside the range of normal doubles. Only operands that are conversions of
  a \<^verbatim>\<open>size_t\<close> are divided, so the operands of a division are finite and not negative.
\<close>

datatype double = Finite rat | PInf | NaN

definition ilog2 :: "rat \<Rightarrow> int" where
  \<comment> \<open>the exponent \<open>\<lfloor>log\<^sub>2 q\<rfloor>\<close> of a positive rational\<close>
  "ilog2 q = (let (a, b) = quotient_of q; d = bitlen a - bitlen b
              in if 2 powi d \<le> q then d else d - 1)"

definition round_ties_even :: "rat \<Rightarrow> int" where
  "round_ties_even m = (let f = \<lfloor>m\<rfloor>; d = m - of_int f
     in if d < 1 / 2 then f else if 1 / 2 < d then f + 1 else if even f then f else f + 1)"

definition round_double :: "rat \<Rightarrow> rat" where
  "round_double q = (if q \<le> 0 then 0
     else let u = 2 powi (ilog2 q - 52) in of_int (round_ties_even (q / u)) * u)"

definition double_of_size_t :: "64 word \<Rightarrow> double" where
  "double_of_size_t n = Finite (round_double (of_nat (unat n)))"

fun double_div :: "double \<Rightarrow> double \<Rightarrow> double" where
  "double_div (Finite a) (Finite b) =
     (if b = 0 then (if a = 0 then NaN else PInf) else Finite (round_double (a / b)))"
| "double_div _ _ = NaN"

fun double_greater :: "double \<Rightarrow> double \<Rightarrow> bool" where
  "double_greater (Finite a) (Finite b) = (b < a)"
| "double_greater PInf (Finite b) = True"
| "double_greater _ _ = False"

subsection \<open>Constants\<close>

definition PREF_AVG_LIST_LEN :: double where
  "PREF_AVG_LIST_LEN = Finite 2"

definition END_SIZE :: nat where
  "END_SIZE = 24"

definition REHASH_LEN :: nat where
  "REHASH_LEN = 100"

definition CLEAN_DEAD_HIGH_WATER_MARK :: double where
  "CLEAN_DEAD_HIGH_WATER_MARK = Finite (1 / 2)"

subsection \<open>Strings, weak handles and the weak storage\<close>

type_synonym jchar = "16 word"
type_synonym uintx = "64 word"
type_synonym size_t = "64 word"

text \<open>
  A reference to a \<^verbatim>\<open>java.lang.String\<close> is the address of the object together with
  the characters it holds (a string is immutable). \<^verbatim>\<open>nullptr\<close> is \<open>None\<close> of
  \<open>oop option\<close>.
\<close>

datatype oop = String_oop (address: nat) (chars: "jchar list")

definition java_lang_String_equals :: "oop \<Rightarrow> jchar list \<Rightarrow> bool" where
  "java_lang_String_equals java_string name = (chars java_string = name)"

definition java_lang_String_equals_oop :: "oop \<Rightarrow> oop \<Rightarrow> bool" where
  "java_lang_String_equals_oop str1 str2 = (chars str1 = chars str2)"

text \<open>
  Modelled from the spec: \<^verbatim>\<open>WeakHandle\<close> and \<^verbatim>\<open>OopStorage\<close> (gc/shared, oops), which
  are not among the sources. A weak handle names a cell of the storage; the cell holds
  the referent until the collector clears it; \<open>peek\<close> observes the cell, \<open>resolve\<close>
  reads it for the caller, \<open>release\<close> returns the cell. The field \<open>released\<close> records
  every release in order, and a new cell never takes the name of a cell that is in use
  or was released.
\<close>

type_synonym weak_handle = nat

record oop_storage =
  cells :: "(weak_handle \<times> oop option) list"
  released :: "weak_handle list"

definition peek :: "oop_storage \<Rightarrow> weak_handle \<Rightarrow> oop option" where
  "peek st w = (case map_of (cells st) w of None \<Rightarrow> None | Some v \<Rightarrow> v)"

definition resolve :: "oop_storage \<Rightarrow> weak_handle \<Rightarrow> oop option" where
  "resolve st w = peek st w"

definition fresh_handle :: "oop_storage \<Rightarrow> weak_handle" where
  "fresh_handle st = Suc (fold max (map fst (cells st) @ released st) 0)"

definition allocate :: "oop_storage \<Rightarrow> oop \<Rightarrow> weak_handle \<times> oop_storage" where
  "allocate st obj =
     (let w = fresh_handle st in (w, st\<lparr>cells := (w, Some obj) # cells st\<rparr>))"

definition release :: "oop_storage \<Rightarrow> weak_handle \<Rightarrow> oop_storage" where
  "release st w =
     st\<lparr>cells := filter (\<lambda>c. fst c \<noteq> w) (cells st), released := w # released st\<rparr>"

subsection \<open>The tables and the state\<close>

text \<open>
  Modelled from the spec: \<^verbatim>\<open>ConcurrentHashTable\<close>
  (utilities/concurrentHashTable.hpp and its tasks), which is not among the sources.
  The table is an array of \<open>2 ^ size_log2\<close> buckets, each an ordered chain of slots; a
  slot holds the weak handle it was inserted with. \<open>task_in_flight\<close> says that another
  structural task is in flight, \<open>mid_transition\<close> that the table is not in a safe state.
\<close>

record table =
  size_log2 :: nat
  size_limit_log2 :: nat
  grow_hint :: nat
  buckets :: "nat \<Rightarrow> weak_handle list"
  task_in_flight :: bool
  mid_transition :: bool

text \<open>
  Modelled from the spec: \<^verbatim>\<open>CompactHashtable\<close> (classfile/compactHashtable.hpp), the
  read-only table of the archive, which is not among the sources. An entry is a hash and
  the string that \<^verbatim>\<open>read_string_from_compact_hashtable\<close> decodes its 32-bit value to.
\<close>

type_synonym shared_string_table = "(32 word \<times> oop) list"

text \<open>
  The state: the statics of \<^verbatim>\<open>stringTable.cpp\<close> under their names (\<open>rehashed\<close> is the
  function-static of \<^verbatim>\<open>rehash_table\<close>), the notifications of \<^verbatim>\<open>Service_lock\<close>, and
  what the collaborators hold: the native heap left for slots and storage cells, the
  top and the room of the Java heap, the room of the resource area, the pending
  exception of the current thread, and whether the archive heap was loaded.
\<close>

record state =
  shared_table :: shared_string_table
  local_table :: table
  has_work :: bool
  needs_rehashing :: bool
  oop_storage :: oop_storage
  current_size :: size_t
  items_count :: size_t
  alt_hash :: bool
  alt_hash_seed :: "64 word"
  rehashed :: bool
  service_lock_notified :: nat
  c_heap_left :: nat
  java_heap_top :: nat
  java_heap_left :: nat
  resource_left :: nat
  pending_exception :: bool
  archive_heap_loaded :: bool

datatype vm_error = Out_Of_Memory | Exit_During_Initialization | Assertion_Failure

subsection \<open>Counting, load and the request of concurrent work\<close>

definition item_added :: "state \<Rightarrow> state" where
  "item_added s = s\<lparr>items_count := items_count s + 1\<rparr>"

definition item_removed :: "state \<Rightarrow> state" where
  "item_removed s = s\<lparr>items_count := items_count s + (- 1)\<rparr>"

definition get_load_factor :: "state \<Rightarrow> double" where
  "get_load_factor s =
     double_div (double_of_size_t (items_count s)) (double_of_size_t (current_size s))"

definition get_dead_factor :: "state \<Rightarrow> size_t \<Rightarrow> double" where
  "get_dead_factor s num_dead =
     double_div (double_of_size_t num_dead) (double_of_size_t (current_size s))"

definition table_size :: "state \<Rightarrow> size_t" where
  "table_size s = push_bit (size_log2 (local_table s)) 1"

definition trigger_concurrent_work :: "state \<Rightarrow> state" where
  "trigger_concurrent_work s =
     s\<lparr>has_work := True, service_lock_notified := Suc (service_lock_notified s)\<rparr>"

definition gc_notification :: "state \<Rightarrow> size_t \<Rightarrow> state" where
  "gc_notification s num_dead =
     (if has_work s then s
      else let load_factor = get_load_factor s;
               dead_factor = get_dead_factor s num_dead
           in if double_greater dead_factor load_factor \<or>
                 double_greater load_factor PREF_AVG_LIST_LEN \<or>
                 double_greater dead_factor CLEAN_DEAD_HIGH_WATER_MARK
              then trigger_concurrent_work s
              else s)"


subsection \<open>Creation\<close>

text \<open>
  \<^verbatim>\<open>create_table\<close> takes the flag \<^verbatim>\<open>StringTableSize\<close>. \<^verbatim>\<open>ceil_log2\<close>
  (utilities/powerOfTwo.hpp) is the least exponent whose power of two reaches its
  argument. The callback registration has no counterpart here: the collector's
  notification is a call of \<open>gc_notification\<close>.
\<close>

definition ceil_log2 :: "size_t \<Rightarrow> nat" where
  "ceil_log2 n = nat (bitlen (int (unat n) - 1))"

definition new_StringTableHash :: "nat \<Rightarrow> nat \<Rightarrow> nat \<Rightarrow> table" where
  "new_StringTableHash log2size log2size_limit grow_hint' =
     \<lparr>size_log2 = log2size, size_limit_log2 = log2size_limit, grow_hint = grow_hint',
      buckets = (\<lambda>i. []), task_in_flight = False, mid_transition = False\<rparr>"

definition create_weak :: oop_storage where
  "create_weak = \<lparr>cells = [], released = []\<rparr>"

definition create_table :: "size_t \<Rightarrow> state \<Rightarrow> state" where
  "create_table StringTableSize s =
     (let start_size_log_2 = ceil_log2 StringTableSize
      in s\<lparr>current_size := push_bit start_size_log_2 1,
            local_table := new_StringTableHash start_size_log_2 END_SIZE REHASH_LEN,
            oop_storage := create_weak\<rparr>)"

text \<open>
  The statics as the C++ initialisers leave them, before \<^verbatim>\<open>create_table\<close>, in a VM
  with room for \<open>room\<close> native blocks, Java strings and resource characters; the
  table pointer, null in the source, is a table of one empty bucket.
\<close>

definition vm_start :: "shared_string_table \<Rightarrow> nat \<Rightarrow> state" where
  "vm_start shared room =
     \<lparr>shared_table = shared, local_table = new_StringTableHash 0 END_SIZE REHASH_LEN,
      has_work = False, needs_rehashing = False, oop_storage = create_weak,
      current_size = 0, items_count = 0, alt_hash = False, alt_hash_seed = 0,
      rehashed = False, service_lock_notified = 0, c_heap_left = room,
      java_heap_top = 0, java_heap_left = room, resource_left = room,
      pending_exception = False, archive_heap_loaded = False\<rparr>"


subsection \<open>Hashing\<close>

text \<open>
  The hash functions and the UTF-8 decoder belong to collaborators
  (\<^verbatim>\<open>java_lang_String::hash_code\<close>, \<^verbatim>\<open>AltHashing::halfsiphash_32\<close>, \<^verbatim>\<open>UTF8\<close> and
  \<^verbatim>\<open>Symbol::as_unicode\<close>); they are parameters of the model.
\<close>

record collab =
  hash_code :: "jchar list \<Rightarrow> 32 word"
  halfsiphash_32 :: "64 word \<Rightarrow> jchar list \<Rightarrow> 32 word"
  utf8_to_unicode :: "8 word list \<Rightarrow> jchar list"

definition hash_string :: "collab \<Rightarrow> state \<Rightarrow> jchar list \<Rightarrow> bool \<Rightarrow> uintx" where
  "hash_string C s str useAlt =
     (if useAlt then ucast (halfsiphash_32 C (alt_hash_seed s) str)
      else ucast (hash_code C str))"

subsection \<open>Allocation in the collaborators\<close>

text \<open>
  A resource array of more characters than the resource area has room for is not
  allocated: \<^verbatim>\<open>as_unicode_string\<close> raises \<^verbatim>\<open>OutOfMemoryError\<close>,
  \<^verbatim>\<open>as_unicode_string_or_null\<close> returns null, and \<^verbatim>\<open>NEW_RESOURCE_ARRAY\<close> exits the
  VM. A Java string is allocated at the top of the Java heap while there is room, and
  \<^verbatim>\<open>OutOfMemoryError\<close> is raised when there is none. A raised exception is pending in
  the thread; the macros \<^verbatim>\<open>CHECK_NULL\<close> return null while one is pending.
\<close>

definition as_unicode_string_or_null :: "state \<Rightarrow> oop \<Rightarrow> jchar list option" where
  "as_unicode_string_or_null s java_string =
     (if length (chars java_string) \<le> resource_left s then Some (chars java_string)
      else None)"

definition as_unicode_string :: "state \<Rightarrow> oop \<Rightarrow> state \<times> jchar list" where
  \<comment> \<open>the null pointer returned with the exception is the empty array: no caller reads it\<close>
  "as_unicode_string s java_string =
     (case as_unicode_string_or_null s java_string of
        None \<Rightarrow> (s\<lparr>pending_exception := True\<rparr>, [])
      | Some result \<Rightarrow> (s, result))"

definition NEW_RESOURCE_ARRAY :: "state \<Rightarrow> nat \<Rightarrow> vm_error + unit" where
  "NEW_RESOURCE_ARRAY s n = (if n \<le> resource_left s then Inr () else Inl Out_Of_Memory)"

definition create_from_unicode :: "state \<Rightarrow> jchar list \<Rightarrow> state \<times> oop option" where
  "create_from_unicode s unicode =
     (if java_heap_left s = 0 then (s\<lparr>pending_exception := True\<rparr>, None)
      else (s\<lparr>java_heap_top := Suc (java_heap_top s),
               java_heap_left := java_heap_left s - 1\<rparr>,
            Some (String_oop (java_heap_top s) unicode)))"

text \<open>
  The constructor \<^verbatim>\<open>WeakHandle(_oop_storage, string_h)\<close> takes a cell of the storage
  and exits the VM when the native heap has no room for one.
\<close>

definition WeakHandle_new :: "state \<Rightarrow> oop \<Rightarrow> vm_error + (state \<times> weak_handle)" where
  "WeakHandle_new s obj =
     (if c_heap_left s = 0 then Inl Out_Of_Memory
      else let (w, st) = allocate (oop_storage s) obj
           in Inr (s\<lparr>oop_storage := st, c_heap_left := c_heap_left s - 1\<rparr>, w))"

subsection \<open>\<^verbatim>\<open>StringTableConfig\<close>\<close>

definition get_hash :: "collab \<Rightarrow> state \<Rightarrow> weak_handle \<Rightarrow> vm_error + (uintx \<times> bool)" where
  \<comment> \<open>the hash and \<^verbatim>\<open>*is_dead\<close>\<close>
  "get_hash C s value =
     (case peek (oop_storage s) value of
        None \<Rightarrow> Inr (0, True)
      | Some val_oop \<Rightarrow>
          (case as_unicode_string_or_null s val_oop of
             Some chars' \<Rightarrow> Inr (hash_string C s chars' (alt_hash s), False)
           | None \<Rightarrow> Inl Out_Of_Memory))"

definition allocate_node :: "state \<Rightarrow> vm_error + state" where
  \<comment> \<open>\<^verbatim>\<open>item_added\<close>, then \<^verbatim>\<open>AllocateHeap\<close>, which exits the VM when it fails\<close>
  "allocate_node s =
     (let s1 = item_added s
      in if c_heap_left s1 = 0 then Inl Out_Of_Memory
         else Inr (s1\<lparr>c_heap_left := c_heap_left s1 - 1\<rparr>))"

definition free_node :: "state \<Rightarrow> weak_handle \<Rightarrow> state" where
  \<comment> \<open>\<^verbatim>\<open>value.release(_oop_storage)\<close>, \<^verbatim>\<open>FreeHeap\<close>, \<^verbatim>\<open>item_removed\<close>;
      the cell and the slot go back to the native heap\<close>
  "free_node s value =
     item_removed
       (s\<lparr>oop_storage := release (oop_storage s) value,
          c_heap_left := c_heap_left s + 2\<rparr>)"

subsection \<open>The lookup functors\<close>

datatype lookup =
    StringTableLookupJchar uintx "jchar list"
  | StringTableLookupOop uintx oop

fun get_hash_of :: "lookup \<Rightarrow> uintx" where
  "get_hash_of (StringTableLookupJchar hash str) = hash"
| "get_hash_of (StringTableLookupOop hash find') = hash"

text \<open>
  \<^verbatim>\<open>equals(value, is_dead)\<close> answers one of three ways: the slot is dead, the slot
  holds another string, or it holds an equal string, which the functor resolves into
  \<^verbatim>\<open>_found\<close>.
\<close>

datatype probe = Is_Dead | No_Match | Found oop

fun equals :: "oop_storage \<Rightarrow> lookup \<Rightarrow> weak_handle \<Rightarrow> probe" where
  "equals st (StringTableLookupJchar hash str) value =
     (case peek st value of
        None \<Rightarrow> Is_Dead
      | Some val_oop \<Rightarrow>
          if \<not> java_lang_String_equals val_oop str then No_Match
          else (case resolve st value of Some found \<Rightarrow> Found found | None \<Rightarrow> Is_Dead))"
| "equals st (StringTableLookupOop hash find') value =
     (case peek st value of
        None \<Rightarrow> Is_Dead
      | Some val_oop \<Rightarrow>
          if \<not> java_lang_String_equals_oop find' val_oop then No_Match
          else (case resolve st value of Some found \<Rightarrow> Found found | None \<Rightarrow> Is_Dead))"

subsection \<open>Lookup and insertion in the table\<close>

text \<open>
  Modelled from the spec: \<^verbatim>\<open>ConcurrentHashTable::get\<close> and \<^verbatim>\<open>insert\<close>, which are not
  among the sources. A lookup scans the bucket the hash addresses; a dead slot is no
  match; the first slot the functor accepts is the result. An insertion creates the
  slot (\<^verbatim>\<open>allocate_node\<close>), looks the content up, and either appends the slot to the
  bucket or, when an equal string is there, destroys the slot again
  (\<^verbatim>\<open>free_node\<close>) and reports failure. Both raise the chain-length alarm when the
  bucket's chain exceeds \<open>grow_hint\<close>.
\<close>

definition bucket_index :: "table \<Rightarrow> uintx \<Rightarrow> nat" where
  "bucket_index t hash = unat hash mod 2 ^ size_log2 t"

fun get_node :: "oop_storage \<Rightarrow> lookup \<Rightarrow> weak_handle list \<Rightarrow> oop option" where
  "get_node st lookup_f [] = None"
| "get_node st lookup_f (node # rest) =
     (case equals st lookup_f node of
        Found found \<Rightarrow> Some found
      | _ \<Rightarrow> get_node st lookup_f rest)"

definition table_get :: "state \<Rightarrow> lookup \<Rightarrow> oop option \<times> bool" where
  \<comment> \<open>what \<^verbatim>\<open>StringTableGet\<close> resolved, and \<^verbatim>\<open>rehash_warning\<close>\<close>
  "table_get s lookup_f =
     (let t = local_table s;
          bucket = buckets t (bucket_index t (get_hash_of lookup_f))
      in (get_node (oop_storage s) lookup_f bucket, grow_hint t < length bucket))"

definition table_insert :: "state \<Rightarrow> lookup \<Rightarrow> weak_handle \<Rightarrow> vm_error + (state \<times> bool \<times> bool)" where
  \<comment> \<open>the state, whether the slot was inserted, and \<^verbatim>\<open>rehash_warning\<close>\<close>
  "table_insert s lookup_f value =
     (case allocate_node s of
        Inl e \<Rightarrow> Inl e
      | Inr s1 \<Rightarrow>
          let t = local_table s1;
              i = bucket_index t (get_hash_of lookup_f);
              bucket = buckets t i;
              rehash_warning = grow_hint t < length bucket
          in (case get_node (oop_storage s1) lookup_f bucket of
                None \<Rightarrow>
                  Inr (s1\<lparr>local_table := t\<lparr>buckets := (buckets t)(i := bucket @ [value])\<rparr>\<rparr>,
                       True, rehash_warning)
              | Some found \<Rightarrow> Inr (free_node s1 value, False, rehash_warning)))"

text \<open>
  \<^verbatim>\<open>update_needs_rehash\<close> is declared in stringTable.hpp: a raised alarm sets
  \<^verbatim>\<open>_needs_rehashing\<close>.
\<close>

definition update_needs_rehash :: "state \<Rightarrow> bool \<Rightarrow> state" where
  "update_needs_rehash s rehash = (if rehash then s\<lparr>needs_rehashing := True\<rparr> else s)"

subsection \<open>Probing\<close>

text \<open>
  Modelled from the spec: \<^verbatim>\<open>CompactHashtable::lookup\<close>, which is not among the
  sources: the first entry of the given hash whose string equals the key.
\<close>

definition CompactHashtable_lookup :: "shared_string_table \<Rightarrow> jchar list \<Rightarrow> 32 word \<Rightarrow> oop option" where
  "CompactHashtable_lookup entries name hash =
     map_option snd (find (\<lambda>e. fst e = hash \<and> java_lang_String_equals (snd e) name) entries)"

text \<open>The \<^verbatim>\<open>assert\<close> of \<^verbatim>\<open>lookup_shared\<close> is a branch: a failed assertion stops the VM.\<close>

definition lookup_shared :: "collab \<Rightarrow> state \<Rightarrow> jchar list \<Rightarrow> 32 word \<Rightarrow> vm_error + oop option" where
  "lookup_shared C s name hash =
     (if hash \<noteq> hash_code C name then Inl Assertion_Failure
      else Inr (CompactHashtable_lookup (shared_table s) name hash))"

definition do_lookup :: "state \<Rightarrow> jchar list \<Rightarrow> uintx \<Rightarrow> state \<times> oop option" where
  "do_lookup s name hash =
     (let (res_oop, rehash_warning) = table_get s (StringTableLookupJchar hash name)
      in (update_needs_rehash s rehash_warning, res_oop))"

definition lookup :: "collab \<Rightarrow> state \<Rightarrow> jchar list \<Rightarrow> vm_error + (state \<times> oop option)" where
  "lookup C s name =
     (let hash = hash_code C name
      in case lookup_shared C s name hash of
           Inl e \<Rightarrow> Inl e
         | Inr (Some string) \<Rightarrow> Inr (s, Some string)
         | Inr None \<Rightarrow>
             let hash' = (if alt_hash s then (ucast (hash_string C s name True) :: 32 word)
                          else hash)
             in Inr (do_lookup s name (ucast hash')))"



subsection \<open>Interning\<close>

text \<open>
  The loop of \<^verbatim>\<open>do_intern\<close> runs again when the insertion found an equal string and
  the lookup after it found none. Sequentially that takes a slot in the bucket that
  names the very cell the candidate was given; every round gives the candidate a cell
  with a greater name, so the slots of the bucket with names at or above the next cell
  become fewer, and the loop ends. The lemmas up to \<open>do_intern_retry_decreases\<close> are
  that argument.
\<close>

lemma fold_max_ge: "(a::nat) \<le> fold max xs a"
  by (induction xs arbitrary: a) (auto intro: order_trans [OF max.cobounded2])

lemma fold_max_mem: "x \<in> set xs \<Longrightarrow> (x::nat) \<le> fold max xs a"
proof (induction xs arbitrary: a)
  case Nil
  then show ?case by simp
next
  case (Cons y ys)
  show ?case
  proof (cases "x = y")
    case True
    have "y \<le> max y a" by simp
    also have "\<dots> \<le> fold max ys (max y a)" by (rule fold_max_ge)
    finally show ?thesis using True by simp
  next
    case False
    with Cons show ?thesis by simp
  qed
qed

lemma fresh_handle_released: "w \<in> set (released st) \<Longrightarrow> w < fresh_handle st"
  using fold_max_mem [of w "map fst (cells st) @ released st" 0]
  by (simp add: fresh_handle_def less_Suc_eq_le)

lemma fresh_handle_cells: "(w, v) \<in> set (cells st) \<Longrightarrow> w < fresh_handle st"
  using fold_max_mem [of w "map fst (cells st) @ released st" 0]
  by (force simp add: fresh_handle_def less_Suc_eq_le)

lemma map_of_filter_other:
  "w \<noteq> w' \<Longrightarrow> map_of (filter (\<lambda>c. fst c \<noteq> w') xs) w = map_of xs w"
  by (induction xs) auto

lemma peek_release_other: "w \<noteq> w' \<Longrightarrow> peek (release st w') w = peek st w"
  by (simp add: peek_def release_def map_of_filter_other)

lemma equals_Jchar:
  "equals st (StringTableLookupJchar hash str) w =
     (case peek st w of None \<Rightarrow> Is_Dead
      | Some v \<Rightarrow> if chars v = str then Found v else No_Match)"
  by (simp add: resolve_def java_lang_String_equals_def split: option.splits)

lemma equals_Oop:
  "equals st (StringTableLookupOop hash find') w =
     (case peek st w of None \<Rightarrow> Is_Dead
      | Some v \<Rightarrow> if chars find' = chars v then Found v else No_Match)"
  by (simp add: resolve_def java_lang_String_equals_oop_def split: option.splits)

lemma equals_release_other:
  "w \<noteq> w' \<Longrightarrow> equals (release st w') lk w = equals st lk w"
  by (cases lk) (simp_all add: equals_Jchar equals_Oop peek_release_other del: equals.simps)

lemma get_node_release_other:
  "w' \<notin> set b \<Longrightarrow> get_node (release st w') lk b = get_node st lk b"
  by (induction b) (auto simp: equals_release_other split: probe.splits)


function do_intern_loop :: "state \<Rightarrow> oop \<Rightarrow> lookup \<Rightarrow> vm_error + (state \<times> oop option)" where
  "do_intern_loop s string_h lookup_f =
     (case WeakHandle_new s string_h of
        Inl e \<Rightarrow> Inl e
      | Inr (s1, wh) \<Rightarrow>
          (case table_insert s1 lookup_f wh of
             Inl e \<Rightarrow> Inl e
           | Inr (s2, inserted, rehash_warning) \<Rightarrow>
               if inserted
               then Inr (update_needs_rehash s2 rehash_warning, resolve (oop_storage s2) wh)
               else (case table_get s2 lookup_f of
                       (Some res_oop, rehash_warning') \<Rightarrow>
                         Inr (update_needs_rehash s2 rehash_warning', Some res_oop)
                     | (None, rehash_warning') \<Rightarrow> do_intern_loop s2 string_h lookup_f)))"
  by pat_completeness auto

definition candidates_ahead :: "state \<Rightarrow> lookup \<Rightarrow> nat" where
  "candidates_ahead s lookup_f =
     (let t = local_table s
      in length (filter (\<lambda>w. fresh_handle (oop_storage s) \<le> w)
           (buckets t (bucket_index t (get_hash_of lookup_f)))))"

lemma length_filter_mono_strict:
  assumes "\<And>x. P x \<Longrightarrow> Q x" "w \<in> set xs" "Q w" "\<not> P w"
  shows "length (filter P xs) < length (filter Q xs)"
proof -
  have "filter P xs = filter P (filter Q xs)"
    using assms(1) by (auto intro: filter_cong)
  moreover have "length (filter P (filter Q xs)) < length (filter Q xs)"
    using assms(2,3,4) by (intro length_filter_less [of w]) auto
  ultimately show ?thesis by simp
qed

lemma do_intern_retry_decreases:
  assumes new: "WeakHandle_new s string_h = Inr (s1, wh)"
    and ins: "table_insert s1 lookup_f wh = Inr (s2, False, rehash_warning)"
    and get: "(None, rehash_warning') = table_get s2 lookup_f"
  shows "candidates_ahead s2 lookup_f < candidates_ahead s lookup_f"
proof -
  define st where "st = oop_storage s"
  define st1 where "st1 = st\<lparr>cells := (fresh_handle st, Some string_h) # cells st\<rparr>"
  define t where "t = local_table s"
  define b where "b = buckets t (bucket_index t (get_hash_of lookup_f))"
  from new have wh: "wh = fresh_handle st"
    and s1: "s1 = s\<lparr>oop_storage := st1, c_heap_left := c_heap_left s - 1\<rparr>"
    by (auto simp: WeakHandle_new_def allocate_def Let_def st_def st1_def split: if_splits)
  from ins obtain s1' where s1': "allocate_node s1 = Inr s1'"
    by (auto simp: table_insert_def split: sum.splits)
  then have s1'_eq: "s1' = (item_added s1)\<lparr>c_heap_left := c_heap_left (item_added s1) - 1\<rparr>"
    by (auto simp: allocate_node_def Let_def split: if_splits)
  have t1: "local_table s1' = t" and st1': "oop_storage s1' = st1"
    by (simp_all add: s1'_eq s1 item_added_def t_def)
  from ins s1' have found: "get_node st1 lookup_f b \<noteq> None" and s2: "s2 = free_node s1' wh"
    by (auto simp: table_insert_def Let_def t1 st1' b_def split: option.splits)
  have t2: "local_table s2 = t" and st2: "oop_storage s2 = release st1 wh"
    by (simp_all add: s2 free_node_def item_removed_def t1 st1')
  from get [symmetric] have none: "get_node (release st1 wh) lookup_f b = None"
    by (simp add: table_get_def Let_def t2 st2 b_def)
  have mem: "wh \<in> set b"
  proof (rule ccontr)
    assume "wh \<notin> set b"
    then have "get_node (release st1 wh) lookup_f b = get_node st1 lookup_f b"
      by (rule get_node_release_other)
    with found none show False by simp
  qed
  have "wh \<in> set (released (release st1 wh))" by (simp add: release_def)
  then have lt: "wh < fresh_handle (release st1 wh)" by (rule fresh_handle_released)
  have "length (filter (\<lambda>w. fresh_handle (release st1 wh) \<le> w) b)
        < length (filter (\<lambda>w. fresh_handle st \<le> w) b)"
    using lt mem by (intro length_filter_mono_strict [of _ _ wh]) (auto simp: wh)
  then show ?thesis
    by (simp add: candidates_ahead_def Let_def t2 st2 b_def t_def st_def)
qed

termination do_intern_loop
  by (relation "measure (\<lambda>(s, string_h, lookup_f). candidates_ahead s lookup_f)")
    (auto intro: do_intern_retry_decreases)

declare do_intern_loop.simps [simp del]


text \<open>
  \<^verbatim>\<open>StringDedup::notify_intern\<close> marks the string and leaves the tables alone; it has
  no counterpart here. The two assertions of \<^verbatim>\<open>do_intern\<close> are one branch: the
  handle is a string whose characters are \<open>name\<close>.
\<close>

definition do_intern_insert :: "state \<Rightarrow> oop option \<Rightarrow> jchar list \<Rightarrow> uintx \<Rightarrow> vm_error + (state \<times> oop option)" where
  \<comment> \<open>the body of \<^verbatim>\<open>do_intern\<close> from its assertions on, for the handle \<^verbatim>\<open>string_h\<close>\<close>
  "do_intern_insert s string_h name hash =
     (case string_h of
        None \<Rightarrow> Inl Assertion_Failure
      | Some string \<Rightarrow>
          if \<not> java_lang_String_equals string name then Inl Assertion_Failure
          else do_intern_loop s string (StringTableLookupOop hash string))"

definition do_intern :: "state \<Rightarrow> oop option \<Rightarrow> jchar list \<Rightarrow> uintx \<Rightarrow> vm_error + (state \<times> oop option)" where
  "do_intern s string_or_null_h name hash =
     (case string_or_null_h of
        Some h \<Rightarrow> do_intern_insert s (Some h) name hash
      | None \<Rightarrow>
          let (s1, string_h) = create_from_unicode s name
          in if pending_exception s1 then Inr (s1, None)
             else do_intern_insert s1 string_h name hash)"

definition intern :: "collab \<Rightarrow> state \<Rightarrow> oop option \<Rightarrow> jchar list \<Rightarrow> vm_error + (state \<times> oop option)" where
  "intern C s string_or_null_h name =
     (let hash = hash_code C name
      in case lookup_shared C s name hash of
           Inl e \<Rightarrow> Inl e
         | Inr (Some found_string) \<Rightarrow> Inr (s, Some found_string)
         | Inr None \<Rightarrow>
             let hash' = (if alt_hash s then (ucast (hash_string C s name True) :: 32 word)
                          else hash);
                 (s1, found_string) = do_lookup s name (ucast hash')
             in (case found_string of
                   Some found \<Rightarrow> Inr (s1, Some found)
                 | None \<Rightarrow> do_intern s1 string_or_null_h name (ucast hash')))"

definition CHECK_NULL :: "vm_error + (state \<times> oop option) \<Rightarrow> vm_error + (state \<times> oop option)" where
  "CHECK_NULL r =
     (case r of
        Inl e \<Rightarrow> Inl e
      | Inr (s, result) \<Rightarrow> Inr (s, if pending_exception s then None else result))"

definition intern_symbol :: "collab \<Rightarrow> state \<Rightarrow> 8 word list option \<Rightarrow> vm_error + (state \<times> oop option)" where
  "intern_symbol C s symbol =
     (case symbol of
        None \<Rightarrow> Inr (s, None)
      | Some bytes \<Rightarrow>
          let chars' = utf8_to_unicode C bytes
          in (case NEW_RESOURCE_ARRAY s (length chars') of
                Inl e \<Rightarrow> Inl e
              | Inr _ \<Rightarrow> CHECK_NULL (intern C s None chars')))"

definition intern_oop :: "collab \<Rightarrow> state \<Rightarrow> oop option \<Rightarrow> vm_error + (state \<times> oop option)" where
  "intern_oop C s string =
     (case string of
        None \<Rightarrow> Inr (s, None)
      | Some str \<Rightarrow>
          let (s1, chars') = as_unicode_string s str
          in if pending_exception s1 then Inr (s1, None)
             else CHECK_NULL (intern C s1 (Some str) chars'))"

definition intern_utf8 :: "collab \<Rightarrow> state \<Rightarrow> 8 word list option \<Rightarrow> vm_error + (state \<times> oop option)" where
  "intern_utf8 C s utf8_string =
     (case utf8_string of
        None \<Rightarrow> Inr (s, None)
      | Some utf8 \<Rightarrow>
          let chars' = utf8_to_unicode C utf8
          in (case NEW_RESOURCE_ARRAY s (length chars') of
                Inl e \<Rightarrow> Inl e
              | Inr _ \<Rightarrow> CHECK_NULL (intern C s None chars')))"


subsection \<open>Concurrent work\<close>

text \<open>
  Modelled from the spec: the tasks of \<^verbatim>\<open>ConcurrentHashTable\<close> (\<^verbatim>\<open>GrowTask\<close>,
  \<^verbatim>\<open>BulkDeleteTask\<close>), \<^verbatim>\<open>is_max_size_reached\<close>, \<^verbatim>\<open>is_safepoint_safe\<close>,
  \<^verbatim>\<open>get_size_log2\<close> and \<^verbatim>\<open>try_move_nodes_to\<close>, which are not among the sources.
  \<open>prepare\<close> fails when another task is in flight or the table is not in a safe state
  (and, for growth, at the maximum size); \<open>do_task\<close> handles one bucket and says
  whether more remain; \<open>done\<close> commits. Growth doubles the bucket count and moves
  every live slot to the bucket its hash addresses there; a slot found dead is
  destroyed (\<^verbatim>\<open>free_node\<close>). Bulk deletion destroys every slot the check accepts.
  \<^verbatim>\<open>pause\<close>, \<^verbatim>\<open>ThreadBlockInVM\<close> and \<^verbatim>\<open>cont\<close> between two chunks let a safepoint
  pass and do nothing in a sequential run.
\<close>

definition is_max_size_reached :: "table \<Rightarrow> bool" where
  "is_max_size_reached t = (size_limit_log2 t \<le> size_log2 t)"

definition is_safepoint_safe :: "table \<Rightarrow> bool" where
  "is_safepoint_safe t = (\<not> mid_transition t)"

definition get_size_log2 :: "table \<Rightarrow> nat" where
  "get_size_log2 t = size_log2 t"

fun move_nodes :: "collab \<Rightarrow> state \<Rightarrow> nat \<Rightarrow> (nat \<Rightarrow> weak_handle list) \<Rightarrow> weak_handle list \<Rightarrow>
    vm_error + (state \<times> (nat \<Rightarrow> weak_handle list))" where
  "move_nodes C s log2size new [] = Inr (s, new)"
| "move_nodes C s log2size new (node # rest) =
     (case get_hash C s node of
        Inl e \<Rightarrow> Inl e
      | Inr (hash, is_dead) \<Rightarrow>
          if is_dead then move_nodes C (free_node s node) log2size new rest
          else let i = unat hash mod 2 ^ log2size
               in move_nodes C s log2size (new(i := new i @ [node])) rest)"

record grow_task =
  gt_next :: nat
  gt_new :: "nat \<Rightarrow> weak_handle list"

definition GrowTask_prepare :: "state \<Rightarrow> (state \<times> grow_task) option" where
  "GrowTask_prepare s =
     (let t = local_table s
      in if task_in_flight t \<or> mid_transition t \<or> is_max_size_reached t then None
         else Some (s\<lparr>local_table := t\<lparr>task_in_flight := True\<rparr>\<rparr>,
                    \<lparr>gt_next = 0, gt_new = (\<lambda>i. [])\<rparr>))"

definition GrowTask_do_task :: "collab \<Rightarrow> state \<Rightarrow> grow_task \<Rightarrow> vm_error + (state \<times> grow_task \<times> bool)" where
  "GrowTask_do_task C s gt =
     (let t = local_table s
      in if 2 ^ size_log2 t \<le> gt_next gt then Inr (s, gt, False)
         else (case move_nodes C s (Suc (size_log2 t)) (gt_new gt) (buckets t (gt_next gt)) of
                 Inl e \<Rightarrow> Inl e
               | Inr (s', new) \<Rightarrow>
                   Inr (s', \<lparr>gt_next = Suc (gt_next gt), gt_new = new\<rparr>,
                        Suc (gt_next gt) < 2 ^ size_log2 t)))"

definition GrowTask_done :: "state \<Rightarrow> grow_task \<Rightarrow> state" where
  "GrowTask_done s gt =
     s\<lparr>local_table := (local_table s)
         \<lparr>size_log2 := Suc (size_log2 (local_table s)), buckets := gt_new gt,
          task_in_flight := False\<rparr>\<rparr>"

lemma move_nodes_local_table:
  "move_nodes C s l new ns = Inr (s', new') \<Longrightarrow> local_table s' = local_table s"
  by (induction ns arbitrary: s new)
    (auto simp: free_node_def item_removed_def Let_def split: sum.splits if_splits prod.splits)

lemma GrowTask_do_task_more:
  assumes "GrowTask_do_task C s gt = Inr (s', gt', True)"
  shows "2 ^ size_log2 (local_table s') - gt_next gt' < 2 ^ size_log2 (local_table s) - gt_next gt"
  using assms
  by (auto simp: GrowTask_do_task_def Let_def dest!: move_nodes_local_table
           split: if_splits sum.splits)

function grow_loop :: "collab \<Rightarrow> state \<Rightarrow> grow_task \<Rightarrow> vm_error + (state \<times> grow_task)" where
  "grow_loop C s gt =
     (case GrowTask_do_task C s gt of
        Inl e \<Rightarrow> Inl e
      | Inr (s', gt', more_work) \<Rightarrow> if more_work then grow_loop C s' gt' else Inr (s', gt'))"
  by pat_completeness auto
termination
  by (relation "measure (\<lambda>(C, s, gt). 2 ^ size_log2 (local_table s) - gt_next gt)")
    (auto intro: GrowTask_do_task_more)

declare grow_loop.simps [simp del]

definition grow :: "collab \<Rightarrow> state \<Rightarrow> vm_error + state" where
  "grow C s =
     (case GrowTask_prepare s of
        None \<Rightarrow> Inr s
      | Some (s1, gt) \<Rightarrow>
          (case grow_loop C s1 gt of
             Inl e \<Rightarrow> Inl e
           | Inr (s2, gt') \<Rightarrow>
               let s3 = GrowTask_done s2 gt'
               in Inr (s3\<lparr>current_size := table_size s3\<rparr>)))"

record StringTableDeleteCheck =
  count :: int
  item :: int

fun delete_nodes :: "state \<Rightarrow> StringTableDeleteCheck \<Rightarrow> weak_handle list \<Rightarrow>
    state \<times> StringTableDeleteCheck \<times> weak_handle list" where
  "delete_nodes s stdc [] = (s, stdc, [])"
| "delete_nodes s stdc (node # rest) =
     (let stdc1 = stdc\<lparr>item := item stdc + 1\<rparr>
      in case peek (oop_storage s) node of
           None \<Rightarrow> delete_nodes (free_node s node) (stdc1\<lparr>count := count stdc1 + 1\<rparr>) rest
         | Some tmp \<Rightarrow>
             (let (s', stdc', kept) = delete_nodes s stdc1 rest in (s', stdc', node # kept)))"

definition BulkDeleteTask_prepare :: "state \<Rightarrow> (state \<times> nat) option" where
  "BulkDeleteTask_prepare s =
     (let t = local_table s
      in if task_in_flight t \<or> mid_transition t then None
         else Some (s\<lparr>local_table := t\<lparr>task_in_flight := True\<rparr>\<rparr>, 0))"

definition BulkDeleteTask_do_task :: "state \<Rightarrow> nat \<Rightarrow> StringTableDeleteCheck \<Rightarrow>
    state \<times> nat \<times> StringTableDeleteCheck \<times> bool" where
  "BulkDeleteTask_do_task s next stdc =
     (let t = local_table s
      in if 2 ^ size_log2 t \<le> next then (s, next, stdc, False)
         else let (s', stdc', kept) = delete_nodes s stdc (buckets t next)
              in (s'\<lparr>local_table := (local_table s')\<lparr>buckets := (buckets t)(next := kept)\<rparr>\<rparr>,
                  Suc next, stdc', Suc next < 2 ^ size_log2 t))"

definition BulkDeleteTask_done :: "state \<Rightarrow> state" where
  "BulkDeleteTask_done s = s\<lparr>local_table := (local_table s)\<lparr>task_in_flight := False\<rparr>\<rparr>"

lemma delete_nodes_local_table:
  "delete_nodes s stdc ns = (s', stdc', kept) \<Longrightarrow> local_table s' = local_table s"
  by (induction ns arbitrary: s stdc s' stdc' kept)
    (auto simp: free_node_def item_removed_def Let_def split: option.splits prod.splits)

lemma BulkDeleteTask_do_task_more:
  assumes "(s', next', stdc', True) = BulkDeleteTask_do_task s next stdc"
  shows "2 ^ size_log2 (local_table s') - next' < 2 ^ size_log2 (local_table s) - next"
  using assms [symmetric]
  by (auto simp: BulkDeleteTask_do_task_def Let_def dest!: delete_nodes_local_table
           split: if_splits prod.splits)

function clean_loop :: "state \<Rightarrow> nat \<Rightarrow> StringTableDeleteCheck \<Rightarrow> state \<times> StringTableDeleteCheck" where
  "clean_loop s next stdc =
     (case BulkDeleteTask_do_task s next stdc of
        (s', next', stdc', more_work) \<Rightarrow> if more_work then clean_loop s' next' stdc' else (s', stdc'))"
  by pat_completeness auto
termination
  by (relation "measure (\<lambda>(s, next, stdc). 2 ^ size_log2 (local_table s) - next)")
    (auto intro: BulkDeleteTask_do_task_more)

declare clean_loop.simps [simp del]

definition clean_dead_entries :: "state \<Rightarrow> state" where
  "clean_dead_entries s =
     (case BulkDeleteTask_prepare s of
        None \<Rightarrow> s
      | Some (s1, next) \<Rightarrow>
          let (s2, stdc) = clean_loop s1 next \<lparr>count = 0, item = 0\<rparr>
          in BulkDeleteTask_done s2)"

definition do_concurrent_work :: "collab \<Rightarrow> state \<Rightarrow> vm_error + state" where
  "do_concurrent_work C s =
     (let load_factor = get_load_factor s
      in case (if double_greater load_factor PREF_AVG_LIST_LEN \<and>
                  \<not> is_max_size_reached (local_table s)
               then grow C s
               else Inr (clean_dead_entries s)) of
           Inl e \<Rightarrow> Inl e
         | Inr s' \<Rightarrow> Inr (s'\<lparr>has_work := False\<rparr>))"

subsection \<open>Rehash\<close>

text \<open>
  \<^verbatim>\<open>try_move_nodes_to\<close> fails when a task is in flight or the table is not in a safe
  state; otherwise it moves every live slot into the new table, to the bucket that
  \<^verbatim>\<open>get_hash\<close> addresses now, and destroys the dead ones. The seed that
  \<^verbatim>\<open>AltHashing::compute_seed\<close> draws is an argument of \<open>rehash_table\<close>.
\<close>

definition try_move_nodes_to :: "collab \<Rightarrow> state \<Rightarrow> table \<Rightarrow> vm_error + (state \<times> table) option" where
  "try_move_nodes_to C s to_cht =
     (let t = local_table s
      in if task_in_flight t \<or> mid_transition t then Inr None
         else (case move_nodes C s (size_log2 to_cht) (buckets to_cht)
                      (concat (map (buckets t) [0..<2 ^ size_log2 t])) of
                 Inl e \<Rightarrow> Inl e
               | Inr (s', new) \<Rightarrow>
                   Inr (Some (s'\<lparr>local_table := t\<lparr>buckets := (\<lambda>i. [])\<rparr>\<rparr>,
                              to_cht\<lparr>buckets := new\<rparr>))))"

definition do_rehash :: "collab \<Rightarrow> state \<Rightarrow> vm_error + (state \<times> bool)" where
  "do_rehash C s =
     (if \<not> is_safepoint_safe (local_table s) then Inr (s, False)
      else let new_size = get_size_log2 (local_table s);
               new_table = new_StringTableHash new_size END_SIZE REHASH_LEN;
               s1 = s\<lparr>alt_hash := True\<rparr>
           in (case try_move_nodes_to C s1 new_table of
                 Inl e \<Rightarrow> Inl e
               | Inr None \<Rightarrow> Inr (s1\<lparr>alt_hash := False\<rparr>, False)
               | Inr (Some (s2, new_table')) \<Rightarrow> Inr (s2\<lparr>local_table := new_table'\<rparr>, True)))"

definition rehash_table :: "collab \<Rightarrow> 64 word \<Rightarrow> state \<Rightarrow> vm_error + state" where
  "rehash_table C seed s =
     (if double_greater (get_load_factor s) PREF_AVG_LIST_LEN \<and>
         \<not> is_max_size_reached (local_table s)
      then Inr ((trigger_concurrent_work s)\<lparr>needs_rehashing := False\<rparr>)
      else if rehashed s
      then Inr ((trigger_concurrent_work s)\<lparr>needs_rehashing := False\<rparr>)
      else let s1 = s\<lparr>alt_hash_seed := seed\<rparr>
           in (case do_rehash C s1 of
                 Inl e \<Rightarrow> Inl e
               | Inr (s2, True) \<Rightarrow> Inr (s2\<lparr>rehashed := True, needs_rehashing := False\<rparr>)
               | Inr (s2, False) \<Rightarrow> Inr (s2\<lparr>needs_rehashing := False\<rparr>)))"

subsection \<open>Sharing\<close>

text \<open>
  \<^verbatim>\<open>iterate\<close> of the copied archive table calls \<^verbatim>\<open>do_value\<close> on the string of every
  entry, in the order of the entries. The constructor of an \<^verbatim>\<open>ExceptionMark\<close> (also
  behind \<^verbatim>\<open>EXCEPTION_MARK\<close>) stops the VM when an exception is pending; its destructor
  does the same and is never reached with one, since \<^verbatim>\<open>do_value\<close> has left the VM by
  then.
\<close>

definition ExceptionMark :: "state \<Rightarrow> vm_error + unit" where
  "ExceptionMark s = (if pending_exception s then Inl Assertion_Failure else Inr ())"

definition SharedStringTransfer_do_value :: "collab \<Rightarrow> state \<Rightarrow> oop \<Rightarrow> vm_error + state" where
  "SharedStringTransfer_do_value C s string =
     (case ExceptionMark s of
        Inl e \<Rightarrow> Inl e
      | Inr _ \<Rightarrow>
          (case intern_oop C s (Some string) of
             Inl e \<Rightarrow> Inl e
           | Inr (s', result) \<Rightarrow>
               if pending_exception s' then Inl Exit_During_Initialization else Inr s'))"

fun iterate :: "collab \<Rightarrow> state \<Rightarrow> shared_string_table \<Rightarrow> vm_error + state" where
  "iterate C s [] = Inr s"
| "iterate C s (entry # rest) =
     (case SharedStringTransfer_do_value C s (snd entry) of
        Inl e \<Rightarrow> Inl e
      | Inr s' \<Rightarrow> iterate C s' rest)"

definition transfer_shared_strings_to_local_table :: "collab \<Rightarrow> state \<Rightarrow> vm_error + state" where
  "transfer_shared_strings_to_local_table C s =
     (if \<not> archive_heap_loaded s then Inl Assertion_Failure
      else (case ExceptionMark s of
              Inl e \<Rightarrow> Inl e
            | Inr _ \<Rightarrow>
                let shared_table_copy = shared_table s;
                    s1 = s\<lparr>shared_table := []\<rparr>
                in iterate C s1 shared_table_copy))"



subsection \<open>An instance of the collaborators\<close>

text \<open>
  The examples run with the hash of \<^verbatim>\<open>java.lang.String\<close>
  (\<open>h = 31 * h + c\<close> on 32 bits), a seeded hash in the place of halfsiphash, and the
  decoder of ASCII.
\<close>

definition example_collab :: collab where
  "example_collab =
     \<lparr>hash_code = (\<lambda>str. fold (\<lambda>c h. 31 * h + ucast c) str 0),
      halfsiphash_32 = (\<lambda>seed str. fold (\<lambda>c h. 33 * h + ucast c) str (ucast seed)),
      utf8_to_unicode = map ucast\<rparr>"


subsection \<open>Runs of calls\<close>

text \<open>
  A run is a list of calls of the entry points, one after the other; it stops at a fatal
  exit. \<open>rehash_performed\<close> says that a call reaches \<^verbatim>\<open>do_rehash\<close> and
  \<^verbatim>\<open>do_rehash\<close> returns true there, and \<open>rehashes\<close> counts the calls of a run that
  do, each in the state the run has reached.
\<close>

datatype call =
    Gc_notification size_t
  | Do_concurrent_work
  | Rehash_table "64 word"
  | Lookup "jchar list"
  | Intern "oop option" "jchar list"

fun call_step :: "collab \<Rightarrow> call \<Rightarrow> state \<Rightarrow> vm_error + state" where
  "call_step C (Gc_notification num_dead) s = Inr (gc_notification s num_dead)"
| "call_step C Do_concurrent_work s = do_concurrent_work C s"
| "call_step C (Rehash_table seed) s = rehash_table C seed s"
| "call_step C (Lookup name) s = map_sum id fst (lookup C s name)"
| "call_step C (Intern string_or_null_h name) s = map_sum id fst (intern C s string_or_null_h name)"



text \<open>\<open>run\<close> is the state after the calls of a run, or the fatal exit that stopped it.\<close>

fun run :: "collab \<Rightarrow> call list \<Rightarrow> state \<Rightarrow> vm_error + state" where
  "run C [] s = Inr s"
| "run C (c # cs) s = (case call_step C c s of Inl e \<Rightarrow> Inl e | Inr s' \<Rightarrow> run C cs s')"



subsection \<open>Predicates of the properties\<close>

text \<open>
  \<open>flags_kept\<close>: a step leaves the work flag, the rehash state, the archive table and
  the collaborators' limits alone. \<open>accounting_only\<close>: a step changes nothing but the
  weak storage, the item count and the native heap. \<open>slots_in_place\<close>: every live slot
  of the local table sits in the bucket that the hash of its string addresses under the
  seed in force.
\<close>

definition flags_kept :: "state \<Rightarrow> state \<Rightarrow> bool" where
  "flags_kept s s' \<longleftrightarrow>
     has_work s' = has_work s \<and> rehashed s' = rehashed s \<and> alt_hash s' = alt_hash s \<and>
     alt_hash_seed s' = alt_hash_seed s \<and> shared_table s' = shared_table s \<and>
     service_lock_notified s' = service_lock_notified s \<and>
     resource_left s' = resource_left s \<and> archive_heap_loaded s' = archive_heap_loaded s"

definition accounting_only :: "state \<Rightarrow> state \<Rightarrow> bool" where
  "accounting_only s s' \<longleftrightarrow>
     (\<exists>st n c. s' = s\<lparr>oop_storage := st, items_count := n, c_heap_left := c\<rparr>)"

definition slot_in_place :: "collab \<Rightarrow> state \<Rightarrow> nat \<Rightarrow> weak_handle \<Rightarrow> bool" where
  "slot_in_place C s i w =
     (case peek (oop_storage s) w of
        None \<Rightarrow> True
      | Some v \<Rightarrow> bucket_index (local_table s) (hash_string C s (chars v) (alt_hash s)) = i)"

definition slots_in_place :: "collab \<Rightarrow> state \<Rightarrow> bool" where
  "slots_in_place C s =
     list_all (\<lambda>i. list_all (slot_in_place C s i) (buckets (local_table s) i))
       [0..<2 ^ size_log2 (local_table s)]"

text \<open>
  \<open>live_slot\<close>: the local table finds a live string of the given characters, in the
  bucket of their hash under the seed in force. \<open>grown_from\<close>: the local table has
  the size it had, every bucket holds the slots it held, and every live cell of the weak
  storage holds the string it held.
\<close>

definition live_slot :: "collab \<Rightarrow> state \<Rightarrow> jchar list \<Rightarrow> bool" where
  "live_slot C s name =
     (fst (table_get s (StringTableLookupJchar (hash_string C s name (alt_hash s)) name)) \<noteq> None)"

definition grown_from :: "state \<Rightarrow> state \<Rightarrow> bool" where
  "grown_from s s' \<longleftrightarrow>
     size_log2 (local_table s') = size_log2 (local_table s) \<and>
     (\<forall>i. set (buckets (local_table s) i) \<subseteq> set (buckets (local_table s') i)) \<and>
     (\<forall>n v. peek (oop_storage s) n = Some v \<longrightarrow> peek (oop_storage s') n = Some v)"


text \<open>A table of two buckets with a task in flight and a pending request to rehash.\<close>

definition busy_table :: state where
  "busy_table =
     (create_table 2 (vm_start [] 8))
       \<lparr>local_table := (new_StringTableHash 1 END_SIZE REHASH_LEN)\<lparr>task_in_flight := True\<rparr>,
        needs_rehashing := True\<rparr>"


text \<open>The table of two buckets after \<open>a\<close> was interned.\<close>

definition one_string :: state where
  "one_string =
     (create_table 2 (vm_start [] 8))
       \<lparr>local_table := (new_StringTableHash 1 END_SIZE REHASH_LEN)\<lparr>buckets := (\<lambda>i. [])(1 := [1])\<rparr>,
        oop_storage := \<lparr>cells = [(1, Some (String_oop 0 [97]))], released = []\<rparr>,
        items_count := 1, c_heap_left := 6, java_heap_top := 1, java_heap_left := 7\<rparr>"


text \<open>
  A table of two buckets under an archive table of the strings \<open>hi\<close> and \<open>a\<close>, with the
  archive heap loaded; and the same after the strings were transferred.
\<close>

definition archived :: state where
  "archived =
     (create_table 2 (vm_start [(3329, String_oop 1000 [104, 105]), (97, String_oop 1001 [97])] 8))
       \<lparr>archive_heap_loaded := True\<rparr>"

definition drained :: state where
  "drained =
     archived
       \<lparr>shared_table := [],
        local_table := (new_StringTableHash 1 END_SIZE REHASH_LEN)\<lparr>buckets := (\<lambda>i. [])(1 := [1, 2])\<rparr>,
        oop_storage := \<lparr>cells = [(2, Some (String_oop 1001 [97])), (1, Some (String_oop 1000 [104, 105]))],
                         released = []\<rparr>,
        items_count := 2, c_heap_left := 4\<rparr>"


section \<open>Properties\<close>

subsection \<open>Rounding\<close>

lemma bitlen_powi_bounds:
  assumes "0 < a"
  shows "(2::rat) powi (bitlen a - 1) \<le> of_int a" "of_int a < (2::rat) powi (bitlen a)"
proof -
  have ge1: "1 \<le> bitlen a" using assms by (auto simp: bitlen_alt_def)
  have la: "2 ^ nat (bitlen a - 1) \<le> a" "a < 2 ^ nat (bitlen a)"
    using bitlen_bounds[OF assms] by auto
  have "(2::rat) powi (bitlen a - 1) = 2 ^ nat (bitlen a - 1)"
    using ge1 by (simp add: power_int_def)
  also have "\<dots> = of_int (2 ^ nat (bitlen a - 1))" by simp
  also have "\<dots> \<le> of_int a" using la(1) by (simp only: of_int_le_iff)
  finally show "(2::rat) powi (bitlen a - 1) \<le> of_int a" .
  have "of_int a < (of_int (2 ^ nat (bitlen a)) :: rat)"
    using la(2) by (simp only: of_int_less_iff)
  also have "\<dots> = 2 powi (bitlen a)" using ge1 by (simp add: power_int_def)
  finally show "of_int a < (2::rat) powi (bitlen a)" .
qed

lemma ilog2_bounds:
  assumes "0 < q"
  shows "2 powi (ilog2 q) \<le> q \<and> q < 2 powi (ilog2 q + 1)"
proof -
  obtain a b where ab: "quotient_of q = (a, b)" by (cases "quotient_of q")
  have b: "0 < b" using ab quotient_of_denom_pos by blast
  have q: "q = of_int a / of_int b" using ab quotient_of_div by blast
  have a: "0 < a" using assms b q by (simp add: zero_less_divide_iff)
  define d where "d = bitlen a - bitlen b"
  note A = bitlen_powi_bounds[OF a] and B = bitlen_powi_bounds[OF b]
  have bpos: "(0::rat) < of_int b" using b by simp
  have "2 powi (d - 1) * of_int b < (2::rat) powi (d - 1) * 2 powi (bitlen b)"
    using B(2) by simp
  also have "\<dots> = 2 powi (bitlen a - 1)" by (simp add: d_def power_int_add [symmetric])
  also have "\<dots> \<le> of_int a" by (rule A(1))
  finally have lo: "2 powi (d - 1) < q" using bpos by (simp add: q pos_less_divide_eq)
  have "of_int a < (2::rat) powi (bitlen a)" by (rule A(2))
  also have "\<dots> = 2 powi (d + 1) * 2 powi (bitlen b - 1)"
    by (simp add: d_def power_int_add [symmetric])
  also have "\<dots> \<le> 2 powi (d + 1) * of_int b" using B(1) by simp
  finally have hi: "q < 2 powi (d + 1)" using bpos by (simp add: q pos_divide_less_eq)
  show ?thesis
    using lo hi by (auto simp: ilog2_def ab d_def Let_def)
qed

lemma round_ties_even_ge: "of_int N \<le> m \<Longrightarrow> N \<le> round_ties_even m"
proof -
  assume "of_int N \<le> m"
  then have "N \<le> \<lfloor>m\<rfloor>" by (simp add: le_floor_iff)
  then show ?thesis by (simp add: round_ties_even_def Let_def)
qed

lemma round_ties_even_of_int: "round_ties_even (of_int z) = z"
  by (simp add: round_ties_even_def)

lemma ilog2_ge:
  assumes "0 < q" "2 powi i \<le> q"
  shows "i \<le> ilog2 q"
proof (rule ccontr)
  assume "\<not> i \<le> ilog2 q"
  then have "ilog2 q + 1 \<le> i" by simp
  then have "(2::rat) powi (ilog2 q + 1) \<le> 2 powi i" by (intro power_int_increasing) auto
  with assms(2) ilog2_bounds[OF assms(1)] show False by simp
qed

text \<open>Rounding never goes below a power of two that the operand has reached.\<close>

lemma round_double_ge_pow2:
  assumes "2 powi i \<le> q"
  shows "2 powi i \<le> round_double q"
proof -
  have q: "0 < q" using assms by (rule less_le_trans [rotated]) simp
  define e where "e = ilog2 q"
  define u :: rat where "u = 2 powi (e - 52)"
  have u: "0 < u" by (simp add: u_def)
  have ie: "i \<le> e" unfolding e_def using q assms by (rule ilog2_ge)
  have "(2::rat) powi 52 * 2 powi (e - 52) = 2 powi (52 + (e - 52))"
    by (rule power_int_add [symmetric]) simp
  moreover have "52 + (e - 52) = e" by arith
  moreover have "(2::rat) powi 52 = of_int (2 ^ 52)" by simp
  ultimately have eq: "of_int (2 ^ 52) * u = 2 powi e" by (simp only: u_def)
  have "2 powi e \<le> q" using ilog2_bounds[OF q] by (simp add: e_def)
  then have "of_int (2 ^ 52) \<le> q / u" using u eq by (simp add: pos_le_divide_eq)
  then have "2 ^ 52 \<le> round_ties_even (q / u)" by (rule round_ties_even_ge)
  then have "(of_int (2 ^ 52) :: rat) \<le> of_int (round_ties_even (q / u))"
    by (simp only: of_int_le_iff)
  then have le: "of_int (2 ^ 52) * u \<le> of_int (round_ties_even (q / u)) * u"
    using u by (simp only: mult_le_cancel_right_pos)
  have rd: "round_double q = of_int (round_ties_even (q / u)) * u"
    using q by (simp add: round_double_def Let_def e_def u_def)
  have "2 powi e = of_int (2 ^ 52) * u" by (rule eq [symmetric])
  also note le
  also note rd [symmetric]
  finally have "2 powi e \<le> round_double q" .
  moreover have "(2::rat) powi i \<le> 2 powi e" using ie by (intro power_int_increasing) auto
  ultimately show ?thesis by simp
qed

text \<open>A count below \<open>2\<^sup>5\<^sup>3\<close> divided by a power of two is a double: nothing is rounded.\<close>

lemma round_double_exact:
  assumes "n < 2 ^ 53"
  shows "round_double (of_nat n / 2 ^ k) = of_nat n / 2 ^ k"
proof (cases "n = 0")
  case True
  then show ?thesis by (simp add: round_double_def)
next
  case False
  define q :: rat where "q = of_nat n / 2 ^ k"
  have q: "0 < q" using False by (simp add: q_def)
  define e where "e = ilog2 q"
  define u :: rat where "u = 2 powi (e - 52)"
  have u: "0 < u" by (simp add: u_def)
  have "2 powi e \<le> q" using ilog2_bounds[OF q] by (simp add: e_def)
  then have "2 powi e * 2 powi (int k) \<le> (of_nat n :: rat)"
    by (simp add: q_def pos_le_divide_eq)
  then have "2 powi (e + int k) \<le> (of_nat n :: rat)" by (simp add: power_int_add)
  also have "(of_nat n :: rat) < of_nat (2 ^ 53)" using assms by (simp only: of_nat_less_iff)
  also have "\<dots> = 2 powi 53" by simp
  finally have "e + int k < 53" by (rule power_int_le_imp_less_exp [rotated]) auto
  then have j: "0 \<le> 52 - e - int k" by simp
  define j where "j = nat (52 - e - int k)"
  have "q / u = of_nat n * (2 powi (- int k) * 2 powi (52 - e))"
    by (simp add: q_def u_def power_int_minus power_int_diff field_simps)
  also have "2 powi (- int k) * 2 powi (52 - e) = (2::rat) powi (int j)"
    using j by (simp add: power_int_add [symmetric] j_def)
  finally have qu: "q / u = of_int (int n * 2 ^ j)" by simp
  have "round_double q = of_int (round_ties_even (q / u)) * u"
    using q by (simp add: round_double_def Let_def e_def u_def)
  also have "\<dots> = q / u * u" by (simp only: qu round_ties_even_of_int)
  also have "\<dots> = q" using u by simp
  finally show ?thesis by (simp add: q_def)
qed


subsection \<open>The thresholds of the collector's notification\<close>


lemma unat_size_pow2:
  assumes "k \<le> END_SIZE"
  shows "unat ((2::size_t) ^ k) = 2 ^ k"
proof -
  have k: "k < 64" using assms by (simp add: END_SIZE_def)
  have "unat ((2::size_t) ^ k) = unat (of_nat (2 ^ k) :: size_t)" by simp
  also have "\<dots> = 2 ^ k mod 2 ^ 64" by (simp only: unat_of_nat) simp
  also have "\<dots> = 2 ^ k" using k by (intro mod_less power_strict_increasing) simp_all
  finally show ?thesis .
qed

lemma pow2_le_END:
  assumes "k \<le> END_SIZE"
  shows "(2::'a::linordered_semidom) ^ k \<le> 2 ^ 24"
  by (rule power_increasing) (use assms in \<open>simp_all add: END_SIZE_def\<close>)

lemma double_of_size_t_small:
  assumes "unat n < 2 ^ 53"
  shows "double_of_size_t n = Finite (of_nat (unat n))"
  using round_double_exact [OF assms, of 0] by (simp add: double_of_size_t_def)

lemma double_of_size_pow2:
  assumes "k \<le> END_SIZE"
  shows "double_of_size_t (2 ^ k) = Finite (2 ^ k)"
proof -
  have "(2::nat) ^ k \<le> 2 ^ 24" using assms by (rule pow2_le_END)
  then have "(2::nat) ^ k < 2 ^ 53" by simp
  then have "unat ((2::size_t) ^ k) < 2 ^ 53" using assms by (simp only: unat_size_pow2)
  then show ?thesis using assms by (simp add: double_of_size_t_small unat_size_pow2)
qed

lemma factor_small:
  assumes "k \<le> END_SIZE" "unat n < 2 ^ 53"
  shows "double_div (double_of_size_t n) (double_of_size_t (2 ^ k)) =
         Finite (of_nat (unat n) / 2 ^ k)"
  using assms round_double_exact [OF assms(2), of k]
  by (simp add: double_of_size_pow2 double_of_size_t_small)

lemma factor_big:
  assumes "k \<le> END_SIZE" "2 ^ 53 \<le> unat n"
  shows "\<exists>r. double_div (double_of_size_t n) (double_of_size_t (2 ^ k)) = Finite r \<and> 2 ^ 29 \<le> r"
proof -
  define x where "x = round_double (of_nat (unat n))"
  have "(2::rat) powi 53 \<le> of_nat (unat n)"
  proof -
    have "(of_nat (2 ^ 53) :: rat) \<le> of_nat (unat n)" using assms(2) by (simp only: of_nat_le_iff)
    then show ?thesis by simp
  qed
  then have x: "2 powi 53 \<le> x" unfolding x_def by (rule round_double_ge_pow2)
  have "(2::rat) powi 29 * 2 ^ k \<le> 2 powi 29 * 2 ^ 24"
    using pow2_le_END [OF assms(1), where 'a = rat] by simp
  also have "\<dots> = 2 powi 53" by simp
  finally have "(2::rat) powi 29 \<le> x / 2 ^ k" using x by (simp add: pos_le_divide_eq)
  then have "2 powi 29 \<le> round_double (x / 2 ^ k)" by (rule round_double_ge_pow2)
  then have r: "2 ^ 29 \<le> round_double (x / 2 ^ k)" by simp
  have a: "double_of_size_t n = Finite x" by (simp add: double_of_size_t_def x_def)
  have b: "double_of_size_t (2 ^ k) = Finite (2 ^ k)" using assms(1) by (rule double_of_size_pow2)
  have "double_div (double_of_size_t n) (double_of_size_t (2 ^ k)) = Finite (round_double (x / 2 ^ k))"
    unfolding a b by simp
  with r show ?thesis by blast
qed


text \<open>
  C1. For a table of \<open>2 ^ k\<close> buckets, \<open>k\<close> at most \<^verbatim>\<open>END_SIZE\<close>, and every count and
  every number of dead items a \<^verbatim>\<open>size_t\<close> can hold: \<open>gc_notification\<close> requests
  concurrent work, that is sets \<^verbatim>\<open>_has_work\<close> and notifies \<^verbatim>\<open>Service_lock\<close> once and
  changes nothing else, exactly when no request is outstanding and, for the exact
  quotients \<open>load_factor = items_count / size\<close> and \<open>dead_factor = num_dead / size\<close>,
  the dead factor exceeds the load factor, or the load factor exceeds 2, or the dead
  factor exceeds one half; in every other case, so with a request outstanding or with a
  load factor of exactly 2 and a dead factor of at most one half, the state is unchanged.
  So \<^verbatim>\<open>_has_work\<close> holds after the call exactly when it held before or one of the three
  comparisons holds, and \<^verbatim>\<open>Service_lock\<close> is notified exactly when the flag goes from
  false to true. The doubles of the source decide as the exact quotients do.
\<close>

theorem gc_notification_threshold:
  assumes "current_size s = 2 ^ k" and "k \<le> END_SIZE"
  shows "(let load_factor = (of_nat (unat (items_count s)) / of_nat (unat (current_size s)) :: rat);
              dead_factor = (of_nat (unat num_dead) / of_nat (unat (current_size s)) :: rat);
              exceeded = (dead_factor > load_factor \<or> load_factor > 2 \<or> dead_factor > 1 / 2)
          in gc_notification s num_dead =
               (if \<not> has_work s \<and> exceeded
                then s\<lparr>has_work := True,
                       service_lock_notified := Suc (service_lock_notified s)\<rparr>
                else s) \<and>
             has_work (gc_notification s num_dead) = (has_work s \<or> exceeded) \<and>
             service_lock_notified (gc_notification s num_dead) =
               (if \<not> has_work s \<and> exceeded then Suc (service_lock_notified s)
                else service_lock_notified s))"
proof -
  define i where "i = unat (items_count s)"
  define d where "d = unat num_dead"
  have sz: "(of_nat (unat (current_size s)) :: rat) = 2 ^ k"
    using assms by (simp add: unat_size_pow2)
  have p29: "(2::rat) ^ 29 > 2" "(2::rat) ^ 29 > 1 / 2" by simp_all
  consider (small) "i < 2 ^ 53" "d < 2 ^ 53" | (ibig) "2 ^ 53 \<le> i" | (dbig) "i < 2 ^ 53" "2 ^ 53 \<le> d"
    by linarith
  then show ?thesis
  proof cases
    case small
    have lf: "get_load_factor s = Finite (of_nat i / 2 ^ k)"
      using factor_small [OF assms(2), of "items_count s"] small(1) 
      by (simp add: get_load_factor_def assms(1) i_def)
    have df: "get_dead_factor s num_dead = Finite (of_nat d / 2 ^ k)"
      using factor_small [OF assms(2), of num_dead] small(2)
      by (simp add: get_dead_factor_def assms(1) d_def)
    show ?thesis
      unfolding gc_notification_def trigger_concurrent_work_def Let_def lf df sz
      by (simp add: PREF_AVG_LIST_LEN_def CLEAN_DEAD_HIGH_WATER_MARK_def i_def d_def)
  next
    case ibig
    obtain r where r: "get_load_factor s = Finite r" "2 ^ 29 \<le> r"
      using factor_big [OF assms(2), of "items_count s"] ibig 
      by (auto simp add: get_load_factor_def assms(1) i_def)
    have "(2::rat) ^ 29 * 2 ^ k \<le> 2 ^ 29 * 2 ^ 24"
      using pow2_le_END [OF assms(2), where 'a = rat] by simp
    also have "\<dots> = of_nat (2 ^ 53)" by simp
    also have "\<dots> \<le> of_nat i" using ibig by (simp only: of_nat_le_iff)
    finally have "(2::rat) ^ 29 \<le> of_nat i / 2 ^ k" by (simp add: pos_le_divide_eq)
    then have big: "(2::rat) < of_nat i / 2 ^ k" using p29(1) by linarith
    have r2: "2 < r" using r(2) p29(1) by linarith
    show ?thesis
      unfolding gc_notification_def trigger_concurrent_work_def Let_def r(1) sz
      using big r2 by (simp add: PREF_AVG_LIST_LEN_def i_def)
  next
    case dbig
    obtain r where r: "get_dead_factor s num_dead = Finite r" "2 ^ 29 \<le> r"
      using factor_big [OF assms(2), of num_dead] dbig 
      by (auto simp add: get_dead_factor_def assms(1) d_def)
    have "(2::rat) ^ 29 * 2 ^ k \<le> 2 ^ 29 * 2 ^ 24"
      using pow2_le_END [OF assms(2), where 'a = rat] by simp
    also have "\<dots> = of_nat (2 ^ 53)" by simp
    also have "\<dots> \<le> of_nat d" using dbig by (simp only: of_nat_le_iff)
    finally have "(2::rat) ^ 29 \<le> of_nat d / 2 ^ k" by (simp add: pos_le_divide_eq)
    then have big: "(1 / 2 :: rat) < of_nat d / 2 ^ k" using p29(2) by linarith
    have r2: "1 / 2 < r" using r(2) p29(2) by linarith
    show ?thesis
      unfolding gc_notification_def trigger_concurrent_work_def Let_def r(1) sz
      using big r2 
      by (cases "get_load_factor s") (simp_all add: CLEAN_DEAD_HIGH_WATER_MARK_def d_def)
  qed
qed


theorem gc_notification_threshold_witness:
  "gc_notification ((create_table 4 (vm_start [] 8))\<lparr>items_count := 8\<rparr>) 2 =
     (create_table 4 (vm_start [] 8))\<lparr>items_count := 8\<rparr> \<and>
   gc_notification ((create_table 4 (vm_start [] 8))\<lparr>items_count := 9\<rparr>) 2 =
     (create_table 4 (vm_start [] 8))
       \<lparr>items_count := 9, has_work := True, service_lock_notified := 1\<rparr> \<and>
   gc_notification ((create_table 4 (vm_start [] 8))\<lparr>items_count := 8\<rparr>) 3 =
     (create_table 4 (vm_start [] 8))
       \<lparr>items_count := 8, has_work := True, service_lock_notified := 1\<rparr> \<and>
   gc_notification ((create_table 4 (vm_start [] 8))\<lparr>items_count := 9, has_work := True\<rparr>) 2 =
     (create_table 4 (vm_start [] 8))\<lparr>items_count := 9, has_work := True\<rparr> \<and>
   \<not> has_work (gc_notification ((create_table 4 (vm_start [] 8))\<lparr>items_count := 8\<rparr>) 2) \<and>
   has_work (gc_notification ((create_table 4 (vm_start [] 8))\<lparr>items_count := 9\<rparr>) 2) \<and>
   service_lock_notified
     (gc_notification ((create_table 4 (vm_start [] 8))\<lparr>items_count := 9\<rparr>) 2) = 1"
proof -
  have c: "ceil_log2 4 = 2" by (simp add: ceil_log2_def compute_bitlen)
  have k: "(2::nat) \<le> END_SIZE" by (simp add: END_SIZE_def)
  have sz: "current_size ((create_table 4 (vm_start [] 8))\<lparr>items_count := n, has_work := b\<rparr>) = 2 ^ 2"
    for n b by (simp add: create_table_def c)
  have sz': "current_size ((create_table 4 (vm_start [] 8))\<lparr>items_count := n\<rparr>) = 2 ^ 2"
    for n by (simp add: create_table_def c)
  show ?thesis
    using gc_notification_threshold [OF sz' [of 8] k, of 2]
      gc_notification_threshold [OF sz' [of 9] k, of 2]
      gc_notification_threshold [OF sz' [of 8] k, of 3]
      gc_notification_threshold [OF sz [where n = 9 and b = True] k, of 2]
    by (simp add: create_table_def c vm_start_def Let_def)
qed



subsection \<open>The archive table comes first\<close>

lemma hash_string_narrow:
  "ucast (ucast (hash_string C s name b) :: 32 word) = hash_string C s name b"
proof -
  have narrow: "(ucast (ucast w :: 64 word) :: 32 word) = w" for w :: "32 word"
    by (rule bit_word_eqI) (simp add: bit_ucast_iff)
  show ?thesis by (simp add: hash_string_def narrow)
qed

lemma hash_string_False: "(ucast (hash_code C name) :: uintx) = hash_string C s name False"
  by (simp add: hash_string_def)

lemma lookup_eq:
  "lookup C s name =
     (case CompactHashtable_lookup (shared_table s) name (hash_code C name) of
        Some string \<Rightarrow> Inr (s, Some string)
      | None \<Rightarrow> Inr (do_lookup s name (hash_string C s name (alt_hash s))))"
  by (simp add: lookup_def lookup_shared_def Let_def hash_string_narrow
        hash_string_False [of C name s] split: option.splits)

lemma intern_eq:
  "intern C s string_or_null_h name =
     (case CompactHashtable_lookup (shared_table s) name (hash_code C name) of
        Some found_string \<Rightarrow> Inr (s, Some found_string)
      | None \<Rightarrow>
          (case do_lookup s name (hash_string C s name (alt_hash s)) of
             (s1, Some found) \<Rightarrow> Inr (s1, Some found)
           | (s1, None) \<Rightarrow>
               do_intern s1 string_or_null_h name (hash_string C s name (alt_hash s))))"
  by (simp add: intern_def lookup_shared_def Let_def hash_string_narrow
        hash_string_False [of C name s] split: option.splits prod.splits)

lemma CompactHashtable_lookup_present:
  assumes "list_all (\<lambda>e. fst e = hash_code C (chars (snd e))) entries"
    and "list_ex (\<lambda>e. chars (snd e) = name) entries"
  shows "\<exists>found. CompactHashtable_lookup entries name (hash_code C name) = Some found \<and>
           found \<in> snd ` set entries \<and> chars found = name"
proof -
  from assms obtain e where e: "e \<in> set entries" "chars (snd e) = name" "fst e = hash_code C name"
    by (auto simp: list_all_iff list_ex_iff)
  let ?P = "\<lambda>e. fst e = hash_code C name \<and> java_lang_String_equals (snd e) name"
  have "?P e" using e by (simp add: java_lang_String_equals_def)
  with e(1) have "find ?P entries \<noteq> None"
    unfolding find_None_iff by blast
  then obtain e' where f: "find ?P entries = Some e'" by blast
  then have "e' \<in> set entries" "?P e'"
    by (auto simp: find_Some_iff)
  with f show ?thesis
    by (auto simp: CompactHashtable_lookup_def java_lang_String_equals_def)
qed

lemma CompactHashtable_lookup_absent:
  assumes "\<not> list_ex (\<lambda>e. chars (snd e) = name) entries"
  shows "CompactHashtable_lookup entries name hash = None"
  using assms
  by (auto simp: CompactHashtable_lookup_def find_None_iff list_ex_iff java_lang_String_equals_def)

text \<open>
  C2. The archive table holds every string under its \<^verbatim>\<open>hash_code\<close>, as
  \<^verbatim>\<open>EncodeSharedStringsAsOffsets\<close> writes it. When it holds a string of the characters
  \<open>name\<close>, \<open>intern\<close> and \<open>lookup\<close> return a string of the archive table with these
  characters and the state is the state before the call: the local table has no new
  slot and \<open>items_count\<close> is what it was. When it holds none, \<open>lookup\<close> is the
  lookup in the local table, and \<open>intern\<close> is that lookup followed, on a miss, by
  \<open>do_intern\<close>.
\<close>

theorem overlay_hit_short_circuits:
  assumes "list_all (\<lambda>e. fst e = hash_code C (chars (snd e))) (shared_table s)"
  shows "if list_ex (\<lambda>e. chars (snd e) = name) (shared_table s)
         then \<exists>found. found \<in> snd ` set (shared_table s) \<and> chars found = name \<and>
                intern C s string_or_null_h name = Inr (s, Some found) \<and>
                lookup C s name = Inr (s, Some found)
         else lookup C s name = Inr (do_lookup s name (hash_string C s name (alt_hash s))) \<and>
              intern C s string_or_null_h name =
                (case do_lookup s name (hash_string C s name (alt_hash s)) of
                   (s1, Some found) \<Rightarrow> Inr (s1, Some found)
                 | (s1, None) \<Rightarrow>
                     do_intern s1 string_or_null_h name (hash_string C s name (alt_hash s)))"
proof (cases "list_ex (\<lambda>e. chars (snd e) = name) (shared_table s)")
  case True
  from CompactHashtable_lookup_present [OF assms True]
  show ?thesis using True by (auto simp: lookup_eq intern_eq)
next
  case False
  from CompactHashtable_lookup_absent [OF False]
  show ?thesis using False by (simp add: lookup_eq intern_eq)
qed

theorem overlay_hit_short_circuits_witness:
  "(\<exists>found. found \<in> snd ` set [(3329 :: 32 word, String_oop 1000 [104, 105])] \<and>
      chars found = [104, 105] \<and>
      intern example_collab
        (create_table 2 (vm_start [(3329, String_oop 1000 [104, 105])] 8)) None [104, 105] =
        Inr (create_table 2 (vm_start [(3329, String_oop 1000 [104, 105])] 8), Some found) \<and>
      lookup example_collab
        (create_table 2 (vm_start [(3329, String_oop 1000 [104, 105])] 8)) [104, 105] =
        Inr (create_table 2 (vm_start [(3329, String_oop 1000 [104, 105])] 8), Some found)) \<and>
   items_count (create_table 2 (vm_start [(3329, String_oop 1000 [104, 105])] 8)) = 0"
proof -
  let ?s = "create_table 2 (vm_start [(3329, String_oop 1000 [104, 105])] 8)"
  have sh: "shared_table ?s = [(3329, String_oop 1000 [104, 105])]"
    by (simp add: create_table_def vm_start_def Let_def)
  have h: "hash_code example_collab [104, 105] = 3329"
    by (simp add: example_collab_def)
  have ok: "list_all (\<lambda>e. fst e = hash_code example_collab (chars (snd e))) (shared_table ?s)"
    by (simp add: sh h)
  have "items_count ?s = 0" by (simp add: create_table_def vm_start_def Let_def)
  then show ?thesis
    using overlay_hit_short_circuits [OF ok, of "[104, 105]" None] by (simp add: sh)
qed

text \<open>
  C9. \<open>lookup\<close> and \<open>intern\<close> probe the archive table with \<^verbatim>\<open>hash_code\<close> of the name,
  whatever \<open>alt_hash\<close> is, and the assertion of \<open>lookup_shared\<close> holds for that hash.
  After a miss there, the local table is probed with the hash of the alternate seed
  when \<open>alt_hash\<close> is set and with \<^verbatim>\<open>hash_code\<close> when it is not; \<open>do_intern\<close> gets
  the same hash.
\<close>

theorem overlay_probed_with_default_hash:
  "lookup_shared C s name (hash_code C name) =
     Inr (CompactHashtable_lookup (shared_table s) name (hash_code C name)) \<and>
   lookup C s name =
     (case CompactHashtable_lookup (shared_table s) name (hash_code C name) of
        Some string \<Rightarrow> Inr (s, Some string)
      | None \<Rightarrow>
          Inr (do_lookup s name
                 (if alt_hash s then ucast (halfsiphash_32 C (alt_hash_seed s) name)
                  else ucast (hash_code C name)))) \<and>
   intern C s string_or_null_h name =
     (case CompactHashtable_lookup (shared_table s) name (hash_code C name) of
        Some found_string \<Rightarrow> Inr (s, Some found_string)
      | None \<Rightarrow>
          (case do_lookup s name
                  (if alt_hash s then ucast (halfsiphash_32 C (alt_hash_seed s) name)
                   else ucast (hash_code C name)) of
             (s1, Some found) \<Rightarrow> Inr (s1, Some found)
           | (s1, None) \<Rightarrow>
               do_intern s1 string_or_null_h name
                 (if alt_hash s then ucast (halfsiphash_32 C (alt_hash_seed s) name)
                  else ucast (hash_code C name))))"
  by (simp add: lookup_eq intern_eq lookup_shared_def hash_string_def split: option.splits)

text \<open>
  C10. Each of the three public variants of \<open>intern\<close> (by symbol, by string, by UTF-8
  bytes) answers a null argument with null and the state it was called in: no table is
  probed and \<open>items_count\<close> is unchanged.
\<close>

theorem intern_null:
  "intern_symbol C s None = Inr (s, None) \<and>
   intern_oop C s None = Inr (s, None) \<and>
   intern_utf8 C s None = Inr (s, None)"
  by (simp add: intern_symbol_def intern_oop_def intern_utf8_def)



subsection \<open>Frames of the maintenance tasks\<close>

lemma flags_kept_refl [simp]: "flags_kept s s"
  by (simp add: flags_kept_def)

lemma flags_kept_trans: "flags_kept s s' \<Longrightarrow> flags_kept s' s'' \<Longrightarrow> flags_kept s s''"
  by (simp add: flags_kept_def)

lemma flags_kept_free_node [simp]: "flags_kept s (free_node s w)"
  by (simp add: flags_kept_def free_node_def item_removed_def)

lemma flags_kept_update_needs_rehash [simp]: "flags_kept s (update_needs_rehash s b)"
  by (simp add: flags_kept_def update_needs_rehash_def)

lemma flags_kept_move_nodes:
  "move_nodes C s l new ns = Inr (s', new') \<Longrightarrow> flags_kept s s'"
proof (induction ns arbitrary: s new)
  case Nil
  then show ?case by simp
next
  case (Cons n ns)
  from Cons.prems obtain hash is_dead where h: "get_hash C s n = Inr (hash, is_dead)"
    by (auto split: sum.splits)
  show ?case
  proof (cases is_dead)
    case True
    with Cons.prems h have "move_nodes C (free_node s n) l new ns = Inr (s', new')" by simp
    then have "flags_kept (free_node s n) s'" by (rule Cons.IH)
    then show ?thesis by (rule flags_kept_trans [OF flags_kept_free_node])
  next
    case False
    with Cons.prems h
    have "move_nodes C s l (new(unat hash mod 2 ^ l := new (unat hash mod 2 ^ l) @ [n])) ns
            = Inr (s', new')"
      by (simp add: Let_def)
    then show ?thesis by (rule Cons.IH)
  qed
qed

lemma flags_kept_GrowTask_do_task:
  "GrowTask_do_task C s gt = Inr (s', gt', m) \<Longrightarrow> flags_kept s s'"
proof -
  assume a: "GrowTask_do_task C s gt = Inr (s', gt', m)"
  show ?thesis
  proof (cases "2 ^ size_log2 (local_table s) \<le> gt_next gt")
    case True
    with a show ?thesis by (simp add: GrowTask_do_task_def Let_def)
  next
    case False
    with a obtain new where
      "move_nodes C s (Suc (size_log2 (local_table s))) (gt_new gt)
         (buckets (local_table s) (gt_next gt)) = Inr (s', new)"
      by (auto simp: GrowTask_do_task_def Let_def split: sum.splits)
    then show ?thesis by (rule flags_kept_move_nodes)
  qed
qed

lemma flags_kept_grow_loop:
  "grow_loop C s gt = Inr (s', gt') \<Longrightarrow> flags_kept s s'"
proof (induction C s gt rule: grow_loop.induct)
  case (1 C s gt)
  from "1.prems" obtain s1 gt1 m where step: "GrowTask_do_task C s gt = Inr (s1, gt1, m)"
    and rest: "(if m then grow_loop C s1 gt1 else Inr (s1, gt1)) = Inr (s', gt')"
    by (subst (asm) grow_loop.simps) (auto split: sum.splits)
  have a: "flags_kept s s1" using step by (rule flags_kept_GrowTask_do_task)
  show ?case
  proof (cases m)
    case True
    with rest have "grow_loop C s1 gt1 = Inr (s', gt')" by simp
    then have "flags_kept s1 s'" using "1.IH" [OF step refl refl True] by simp
    with a show ?thesis by (rule flags_kept_trans)
  next
    case False
    with rest a show ?thesis by simp
  qed
qed

lemma flags_kept_grow: "grow C s = Inr s' \<Longrightarrow> flags_kept s s'"
proof -
  assume g: "grow C s = Inr s'"
  show ?thesis
  proof (cases "GrowTask_prepare s")
    case None
    with g show ?thesis by (simp add: grow_def)
  next
    case (Some p)
    obtain s1 gt where p: "p = (s1, gt)" by (cases p)
    from Some p have s1: "flags_kept s s1"
      by (auto simp: GrowTask_prepare_def Let_def flags_kept_def split: if_splits)
    from g Some p obtain s2 gt' where l: "grow_loop C s1 gt = Inr (s2, gt')"
      and s': "s' = (GrowTask_done s2 gt')\<lparr>current_size := table_size (GrowTask_done s2 gt')\<rparr>"
      by (auto simp: grow_def Let_def split: sum.splits)
    have "flags_kept s1 s2" using l by (rule flags_kept_grow_loop)
    moreover have "flags_kept s2 s'" by (simp add: s' flags_kept_def GrowTask_done_def)
    ultimately show ?thesis using s1 by (blast intro: flags_kept_trans)
  qed
qed

lemma flags_kept_delete_nodes:
  "delete_nodes s stdc ns = (s', stdc', kept) \<Longrightarrow> flags_kept s s'"
proof (induction ns arbitrary: s stdc s' stdc' kept)
  case Nil
  then show ?case by simp
next
  case (Cons n ns)
  show ?case
  proof (cases "peek (oop_storage s) n")
    case None
    with Cons.prems obtain c where
      "delete_nodes (free_node s n) c ns = (s', stdc', kept)"
      by (simp add: Let_def)
    then have "flags_kept (free_node s n) s'" by (rule Cons.IH)
    then show ?thesis by (rule flags_kept_trans [OF flags_kept_free_node])
  next
    case (Some tmp)
    with Cons.prems obtain c k where
      "delete_nodes s c ns = (s', stdc', k)"
      by (auto simp: Let_def split: prod.splits)
    then show ?thesis by (rule Cons.IH)
  qed
qed

lemma flags_kept_BulkDeleteTask_do_task:
  "BulkDeleteTask_do_task s next stdc = (s', next', stdc', m) \<Longrightarrow> flags_kept s s'"
proof -
  assume a: "BulkDeleteTask_do_task s next stdc = (s', next', stdc', m)"
  show ?thesis
  proof (cases "2 ^ size_log2 (local_table s) \<le> next")
    case True
    with a show ?thesis by (simp add: BulkDeleteTask_do_task_def Let_def)
  next
    case False
    obtain s1 c1 kept where d: "delete_nodes s stdc (buckets (local_table s) next) = (s1, c1, kept)"
      by (cases "delete_nodes s stdc (buckets (local_table s) next)") auto
    have "flags_kept s s1" using d by (rule flags_kept_delete_nodes)
    moreover from a False d have "flags_kept s1 s'"
      by (auto simp: BulkDeleteTask_do_task_def Let_def flags_kept_def)
    ultimately show ?thesis by (rule flags_kept_trans)
  qed
qed

lemma flags_kept_clean_loop:
  "clean_loop s next stdc = (s', stdc') \<Longrightarrow> flags_kept s s'"
proof (induction s "next" stdc rule: clean_loop.induct)
  case (1 s nxt stdc)
  obtain s1 n1 c1 m where step: "BulkDeleteTask_do_task s nxt stdc = (s1, n1, c1, m)"
    by (cases "BulkDeleteTask_do_task s nxt stdc") auto
  with "1.prems" have rest: "(if m then clean_loop s1 n1 c1 else (s1, c1)) = (s', stdc')"
    by (subst (asm) clean_loop.simps) simp
  have a: "flags_kept s s1" using step by (rule flags_kept_BulkDeleteTask_do_task)
  show ?case
  proof (cases m)
    case True
    with rest have "clean_loop s1 n1 c1 = (s', stdc')" by simp
    then have "flags_kept s1 s'" using "1.IH" [OF step [symmetric] refl refl True] by simp
    with a show ?thesis by (rule flags_kept_trans)
  next
    case False
    with rest a show ?thesis by simp
  qed
qed

lemma flags_kept_clean_dead_entries: "flags_kept s (clean_dead_entries s)"
proof (cases "BulkDeleteTask_prepare s")
  case None
  then show ?thesis by (simp add: clean_dead_entries_def)
next
  case (Some p)
  obtain s1 n where p: "p = (s1, n)" by (cases p)
  from Some p have s1: "flags_kept s s1"
    by (auto simp: BulkDeleteTask_prepare_def Let_def flags_kept_def split: if_splits)
  obtain s2 c where l: "clean_loop s1 n \<lparr>count = 0, item = 0\<rparr> = (s2, c)"
    by (cases "clean_loop s1 n \<lparr>count = 0, item = 0\<rparr>")
  have "flags_kept s1 s2" using l by (rule flags_kept_clean_loop)
  moreover have "flags_kept s2 (BulkDeleteTask_done s2)"
    by (simp add: flags_kept_def BulkDeleteTask_done_def)
  ultimately show ?thesis
    using s1 Some p l by (auto simp: clean_dead_entries_def intro: flags_kept_trans)
qed

subsection \<open>Choice of the maintenance task\<close>

lemma grow_has_work: "case grow C s of Inl e \<Rightarrow> True | Inr s' \<Rightarrow> has_work s' = has_work s"
proof (cases "grow C s")
  case (Inl a)
  then show ?thesis by simp
next
  case (Inr b)
  then show ?thesis using flags_kept_grow [of C s b] by (simp add: flags_kept_def)
qed

lemma clean_dead_entries_has_work: "has_work (clean_dead_entries s) = has_work s"
    using flags_kept_clean_dead_entries [of s] by (simp add: flags_kept_def)


lemma load_factor_exceeds:
  assumes "current_size s = 2 ^ k" and "k \<le> END_SIZE"
  shows "double_greater (get_load_factor s) PREF_AVG_LIST_LEN \<longleftrightarrow>
         2 * unat (current_size s) < unat (items_count s)"
proof -
  define i where "i = unat (items_count s)"
  have sz: "unat (current_size s) = 2 ^ k" using assms by (simp add: unat_size_pow2)
  have k24: "(2::nat) ^ k \<le> 2 ^ 24" using assms(2) by (rule pow2_le_END)
  show ?thesis
  proof (cases "i < 2 ^ 53")
    case True
    have lf: "get_load_factor s = Finite (of_nat i / 2 ^ k)"
      using factor_small [OF assms(2), of "items_count s"] True
      by (simp add: get_load_factor_def assms(1) i_def)
    have "(2 < (of_nat i / 2 ^ k :: rat)) = ((2::rat) * 2 ^ k < of_nat i)"
      by (simp add: pos_less_divide_eq)
    also have "\<dots> = (of_nat (2 * 2 ^ k) < (of_nat i :: rat))" by simp
    also have "\<dots> = (2 * 2 ^ k < i)" by (simp only: of_nat_less_iff)
    finally show ?thesis
      by (simp add: lf PREF_AVG_LIST_LEN_def sz i_def)
  next
    case False
    then have big: "2 ^ 53 \<le> i" by simp
    obtain r where r: "get_load_factor s = Finite r" "2 ^ 29 \<le> r"
      using factor_big [OF assms(2), of "items_count s"] big
      by (auto simp add: get_load_factor_def assms(1) i_def)
    have "(2::rat) < 2 ^ 29" by simp
    with r(2) have r2: "2 < r" by linarith
    have "2 * (2::nat) ^ k \<le> 2 * 2 ^ 24" using k24 by simp
    also have "\<dots> < 2 ^ 53" by simp
    finally have "2 * 2 ^ k < i" using big by linarith
    with r2 show ?thesis by (simp add: r(1) PREF_AVG_LIST_LEN_def sz i_def)
  qed
qed

lemma do_concurrent_work_eq:
  assumes "current_size s = 2 ^ k" and "k \<le> END_SIZE"
  shows "do_concurrent_work C s =
       (case (if 2 * unat (current_size s) < unat (items_count s) \<and>
                \<not> is_max_size_reached (local_table s) then grow C s else Inr (clean_dead_entries s)) of
          Inl e \<Rightarrow> Inl e | Inr s' \<Rightarrow> Inr (s'\<lparr>has_work := False\<rparr>))"
  unfolding do_concurrent_work_def Let_def load_factor_exceeds [OF assms] ..


text \<open>
  C4. For a table of \<open>2 ^ k\<close> buckets, \<open>k\<close> at most \<^verbatim>\<open>END_SIZE\<close>:
  \<open>do_concurrent_work\<close> runs \<open>grow\<close> when the item count exceeds twice the bucket count
  (the load factor exceeds 2) and the table is not at its maximum size, and runs
  \<open>clean_dead_entries\<close> in every other case. Neither task touches \<open>has_work\<close>, and
  the state that \<open>do_concurrent_work\<close> returns is the state the task returned with
  \<open>has_work\<close> cleared: the flag is cleared after the task, and only then. A fatal exit
  of the task is the result of the whole call.
\<close>

theorem do_concurrent_work_selects:
  assumes "current_size s = 2 ^ k" and "k \<le> END_SIZE"
  shows "(if 2 * unat (current_size s) < unat (items_count s) \<and>
             \<not> is_max_size_reached (local_table s)
          then do_concurrent_work C s =
                 (case grow C s of Inl e \<Rightarrow> Inl e | Inr s' \<Rightarrow> Inr (s'\<lparr>has_work := False\<rparr>))
          else do_concurrent_work C s = Inr ((clean_dead_entries s)\<lparr>has_work := False\<rparr>)) \<and>
         (case grow C s of Inl e \<Rightarrow> True | Inr s' \<Rightarrow> has_work s' = has_work s) \<and>
         has_work (clean_dead_entries s) = has_work s \<and>
         (case do_concurrent_work C s of Inl e \<Rightarrow> True | Inr s' \<Rightarrow> \<not> has_work s')"
proof -
  note sel = do_concurrent_work_eq [OF assms, where C = C]
  have d: "case do_concurrent_work C s of Inl e \<Rightarrow> True | Inr s' \<Rightarrow> \<not> has_work s'"
  proof (cases "do_concurrent_work C s")
    case (Inl e)
    then show ?thesis by simp
  next
    case (Inr s')
    then have "\<not> has_work s'" unfolding sel by (simp split: if_splits sum.splits) auto
    with Inr show ?thesis by simp
  qed
  have e: "if 2 * unat (current_size s) < unat (items_count s) \<and>
             \<not> is_max_size_reached (local_table s)
       then do_concurrent_work C s =
              (case grow C s of Inl e \<Rightarrow> Inl e | Inr s' \<Rightarrow> Inr (s'\<lparr>has_work := False\<rparr>))
       else do_concurrent_work C s = Inr ((clean_dead_entries s)\<lparr>has_work := False\<rparr>)"
    unfolding sel by simp
  from e grow_has_work [where C = C and s = s] clean_dead_entries_has_work [where s = s] d show ?thesis by blast
qed

text \<open>
  C6. For a table of \<open>2 ^ k\<close> buckets, \<open>k\<close> at most \<^verbatim>\<open>END_SIZE\<close>, whose item count
  exceeds twice the bucket count and which is not at its maximum size: \<open>rehash_table\<close>
  requests concurrent work and clears \<open>needs_rehashing\<close>, and that is all it does: the
  table, \<open>alt_hash\<close>, the seed and \<open>rehashed\<close> are what they were.
\<close>

theorem rehash_table_prefers_growing:
  assumes "current_size s = 2 ^ k" and "k \<le> END_SIZE"
    and "2 * unat (current_size s) < unat (items_count s)"
    and "\<not> is_max_size_reached (local_table s)"
  shows "rehash_table C seed s =
           Inr (s\<lparr>has_work := True, service_lock_notified := Suc (service_lock_notified s),
                  needs_rehashing := False\<rparr>)"
  using assms(3,4)
  by (simp add: rehash_table_def load_factor_exceeds [OF assms(1,2)] trigger_concurrent_work_def)

subsection \<open>Frames of interning\<close>

lemma flags_kept_WeakHandle_new:
  "WeakHandle_new s obj = Inr (s', w) \<Longrightarrow> flags_kept s s'"
  by (auto simp: WeakHandle_new_def allocate_def Let_def flags_kept_def split: if_splits)

lemma flags_kept_allocate_node: "allocate_node s = Inr s' \<Longrightarrow> flags_kept s s'"
  by (auto simp: allocate_node_def item_added_def Let_def flags_kept_def split: if_splits)

lemma flags_kept_table_insert:
  assumes "table_insert s lookup_f w = Inr (s', inserted, warning)"
  shows "flags_kept s s'"
proof -
  from assms obtain s1 where a: "allocate_node s = Inr s1"
    by (auto simp: table_insert_def split: sum.splits)
  have 1: "flags_kept s s1" using a by (rule flags_kept_allocate_node)
  from assms a have "s' = free_node s1 w \<or>
      (\<exists>t. s' = s1\<lparr>local_table := t\<rparr>)"
    by (auto simp: table_insert_def Let_def split: option.splits)
  then have "flags_kept s1 s'" by (auto simp: flags_kept_def free_node_def item_removed_def)
  with 1 show ?thesis by (rule flags_kept_trans)
qed

lemma flags_kept_do_intern_loop:
  "do_intern_loop s string_h lookup_f = Inr (s', r) \<Longrightarrow> flags_kept s s'"
proof (induction s string_h lookup_f rule: do_intern_loop.induct)
  case (1 s string_h lookup_f)
  from "1.prems" obtain s1 wh where new: "WeakHandle_new s string_h = Inr (s1, wh)"
    by (subst (asm) do_intern_loop.simps) (auto split: sum.splits)
  from "1.prems" new obtain s2 inserted warning where
    ins: "table_insert s1 lookup_f wh = Inr (s2, inserted, warning)"
    by (subst (asm) do_intern_loop.simps) (auto split: sum.splits)
  have a: "flags_kept s s2"
    using flags_kept_WeakHandle_new [OF new] flags_kept_table_insert [OF ins]
    by (rule flags_kept_trans)
  show ?case
  proof (cases inserted)
    case True
    with "1.prems" new ins have "s' = update_needs_rehash s2 warning"
      by (subst (asm) do_intern_loop.simps) simp
    then have "flags_kept s2 s'" by simp
    with a show ?thesis by (rule flags_kept_trans)
  next
    case False
    obtain res w' where get: "table_get s2 lookup_f = (res, w')"
      by (cases "table_get s2 lookup_f")
    show ?thesis
    proof (cases res)
      case None
      with "1.prems" new ins False get
      have "do_intern_loop s2 string_h lookup_f = Inr (s', r)"
        by (subst (asm) do_intern_loop.simps) simp
      then have "flags_kept s2 s'"
        using "1.IH" [OF new refl ins refl refl False, of res w'] get None by simp
      with a show ?thesis by (rule flags_kept_trans)
    next
      case (Some res_oop)
      with "1.prems" new ins False get have "s' = update_needs_rehash s2 w'"
        by (subst (asm) do_intern_loop.simps) simp
      then have "flags_kept s2 s'" by simp
      with a show ?thesis by (rule flags_kept_trans)
    qed
  qed
qed

lemma flags_kept_create_from_unicode:
  "create_from_unicode s name = (s', r) \<Longrightarrow> flags_kept s s'"
  by (auto simp: create_from_unicode_def flags_kept_def split: if_splits)

lemma flags_kept_do_intern:
  assumes "do_intern s string_or_null_h name hash = Inr (s', r)"
  shows "flags_kept s s'"
proof (cases string_or_null_h)
  case (Some h)
  with assms have "do_intern_loop s h (StringTableLookupOop hash h) = Inr (s', r)"
    by (auto simp: do_intern_def do_intern_insert_def split: if_splits)
  then show ?thesis by (rule flags_kept_do_intern_loop)
next
  case None
  obtain s1 string_h where c: "create_from_unicode s name = (s1, string_h)"
    by (cases "create_from_unicode s name")
  have 1: "flags_kept s s1" using c by (rule flags_kept_create_from_unicode)
  show ?thesis
  proof (cases "pending_exception s1")
    case True
    with assms None c 1 show ?thesis by (simp add: do_intern_def)
  next
    case False
    with assms None c obtain str where
      "do_intern_loop s1 str (StringTableLookupOop hash str) = Inr (s', r)"
      by (auto simp: do_intern_def do_intern_insert_def split: option.splits if_splits)
    then have "flags_kept s1 s'" by (rule flags_kept_do_intern_loop)
    with 1 show ?thesis by (rule flags_kept_trans)
  qed
qed

lemma flags_kept_do_lookup: "do_lookup s name hash = (s', r) \<Longrightarrow> flags_kept s s'"
  by (auto simp: do_lookup_def Let_def split: prod.splits)

lemma flags_kept_lookup: "lookup C s name = Inr (s', r) \<Longrightarrow> flags_kept s s'"
  by (auto simp: lookup_eq split: option.splits dest: flags_kept_do_lookup)

lemma flags_kept_intern:
  assumes "intern C s string_or_null_h name = Inr (s', r)"
  shows "flags_kept s s'"
proof (cases "CompactHashtable_lookup (shared_table s) name (hash_code C name)")
  case (Some found)
  with assms show ?thesis by (simp add: intern_eq)
next
  case None
  obtain s1 found where l: "do_lookup s name (hash_string C s name (alt_hash s)) = (s1, found)"
    by (cases "do_lookup s name (hash_string C s name (alt_hash s))")
  have 1: "flags_kept s s1" using l by (rule flags_kept_do_lookup)
  show ?thesis
  proof (cases found)
    case None': None
    with assms None l
    have "do_intern s1 string_or_null_h name (hash_string C s name (alt_hash s)) = Inr (s', r)"
      by (simp add: intern_eq)
    then have "flags_kept s1 s'" by (rule flags_kept_do_intern)
    with 1 show ?thesis by (rule flags_kept_trans)
  next
    case (Some f)
    with assms None l 1 show ?thesis by (simp add: intern_eq)
  qed
qed

subsection \<open>Rehash\<close>

lemma accounting_only_refl [simp]: "accounting_only s s"
proof -
  have "s = s\<lparr>oop_storage := oop_storage s, items_count := items_count s,
               c_heap_left := c_heap_left s\<rparr>" by simp
  then show ?thesis unfolding accounting_only_def by blast
qed

lemma accounting_only_trans:
  "accounting_only s s' \<Longrightarrow> accounting_only s' s'' \<Longrightarrow> accounting_only s s''"
  unfolding accounting_only_def by (elim exE, simp) blast

lemma accounting_only_free_node [simp]: "accounting_only s (free_node s w)"
  unfolding accounting_only_def free_node_def item_removed_def
  by (intro exI [of _ "release (oop_storage s) w"] exI [of _ "items_count s + (- 1)"]
        exI [of _ "c_heap_left s + 2"]) simp

lemma peek_release_dead:
  assumes "peek st w = None"
  shows "peek (release st w) w' = peek st w'"
proof (cases "w' = w")
  case True
  have "map_of (filter (\<lambda>c. fst c \<noteq> w) xs) w = None" for xs :: "(weak_handle \<times> oop option) list"
    by (induction xs) auto
  then show ?thesis using assms True by (simp add: peek_def release_def)
next
  case False
  then show ?thesis by (rule peek_release_other)
qed

lemma move_nodes_frame:
  "move_nodes C s l new ns = Inr (s', new') \<Longrightarrow>
     accounting_only s s' \<and> peek (oop_storage s') = peek (oop_storage s)"
proof (induction ns arbitrary: s new)
  case Nil
  then show ?case by simp
next
  case (Cons n ns)
  from Cons.prems obtain hash is_dead where h: "get_hash C s n = Inr (hash, is_dead)"
    by (auto split: sum.splits)
  show ?case
  proof (cases is_dead)
    case True
    with h have dead: "peek (oop_storage s) n = None"
      by (auto simp: get_hash_def split: option.splits)
    from True Cons.prems h have "move_nodes C (free_node s n) l new ns = Inr (s', new')" by simp
    then have ih: "accounting_only (free_node s n) s'"
      "peek (oop_storage s') = peek (oop_storage (free_node s n))"
      using Cons.IH by blast+
    have "peek (oop_storage (free_node s n)) = peek (oop_storage s)"
      using peek_release_dead [OF dead] by (auto simp: free_node_def item_removed_def)
    with ih show ?thesis
      using accounting_only_trans [OF accounting_only_free_node] by auto
  next
    case False
    with Cons.prems h
    have "move_nodes C s l (new(unat hash mod 2 ^ l := new (unat hash mod 2 ^ l) @ [n])) ns
            = Inr (s', new')"
      by (simp add: Let_def)
    then show ?thesis by (rule Cons.IH)
  qed
qed

lemma try_move_nodes_to_busy:
  "task_in_flight (local_table s) \<or> mid_transition (local_table s) \<Longrightarrow>
   try_move_nodes_to C s to_cht = Inr None"
  by (simp add: try_move_nodes_to_def Let_def)

lemma try_move_nodes_to_free:
  assumes "\<not> task_in_flight (local_table s)" "\<not> mid_transition (local_table s)"
  shows "try_move_nodes_to C s to_cht \<noteq> Inr None"
  using assms by (simp add: try_move_nodes_to_def Let_def split: sum.splits)

lemma do_rehash_unsafe:
  "\<not> is_safepoint_safe (local_table s) \<Longrightarrow> do_rehash C s = Inr (s, False)"
  by (simp add: do_rehash_def)

lemma do_rehash_busy:
  assumes "is_safepoint_safe (local_table s)" "task_in_flight (local_table s)"
  shows "do_rehash C s = Inr (s\<lparr>alt_hash := False\<rparr>, False)"
  using assms by (simp add: do_rehash_def Let_def try_move_nodes_to_busy)

lemma do_rehash_False:
  assumes "do_rehash C s = Inr (s', False)"
  shows "(mid_transition (local_table s) \<or> task_in_flight (local_table s)) \<and>
         (s' = s \<or> s' = s\<lparr>alt_hash := False\<rparr>)"
proof (cases "is_safepoint_safe (local_table s)")
  case False
  with assms show ?thesis by (simp add: do_rehash_def is_safepoint_safe_def)
next
  case True
  show ?thesis
  proof (cases "task_in_flight (local_table s)")
    case True': True
    with True assms show ?thesis by (simp add: do_rehash_busy)
  next
    case False
    with True have "try_move_nodes_to C (s\<lparr>alt_hash := True\<rparr>)
        (new_StringTableHash (get_size_log2 (local_table s)) END_SIZE REHASH_LEN) \<noteq> Inr None"
      by (intro try_move_nodes_to_free) (simp_all add: is_safepoint_safe_def)
    with True assms show ?thesis
      by (auto simp: do_rehash_def Let_def split: sum.splits option.splits)
  qed
qed

lemma do_rehash_True:
  assumes "do_rehash C s = Inr (s', True)"
  shows "\<not> mid_transition (local_table s) \<and> \<not> task_in_flight (local_table s) \<and>
         alt_hash s' \<and> alt_hash_seed s' = alt_hash_seed s \<and> rehashed s' = rehashed s \<and>
         size_log2 (local_table s') = size_log2 (local_table s) \<and>
         size_limit_log2 (local_table s') = END_SIZE \<and>
         has_work s' = has_work s \<and> needs_rehashing s' = needs_rehashing s \<and>
         current_size s' = current_size s \<and> shared_table s' = shared_table s \<and>
         peek (oop_storage s') = peek (oop_storage s)"
proof -
  let ?new = "new_StringTableHash (get_size_log2 (local_table s)) END_SIZE REHASH_LEN"
  let ?s1 = "s\<lparr>alt_hash := True\<rparr>"
  from assms have safe: "is_safepoint_safe (local_table s)"
    by (auto simp: do_rehash_def split: if_splits)
  with assms obtain s2 t where mv: "try_move_nodes_to C ?s1 ?new = Inr (Some (s2, t))"
    and s': "s' = s2\<lparr>local_table := t\<rparr>"
    by (auto simp: do_rehash_def Let_def split: sum.splits option.splits)
  from mv have free: "\<not> task_in_flight (local_table s)" "\<not> mid_transition (local_table s)"
    by (auto simp: try_move_nodes_to_def Let_def split: if_splits)
  from mv free obtain s3 new where
    m: "move_nodes C ?s1 (size_log2 ?new) (buckets ?new)
          (concat (map (buckets (local_table s)) [0..<2 ^ size_log2 (local_table s)])) = Inr (s3, new)"
    and s2: "s2 = s3\<lparr>local_table := (local_table s)\<lparr>buckets := (\<lambda>i. [])\<rparr>\<rparr>"
    and t: "t = ?new\<lparr>buckets := new\<rparr>"
    by (auto simp: try_move_nodes_to_def Let_def split: sum.splits)
  from move_nodes_frame [OF m] obtain st n c where
    s3: "s3 = ?s1\<lparr>oop_storage := st, items_count := n, c_heap_left := c\<rparr>"
    and pk: "peek (oop_storage s3) = peek (oop_storage s)"
    by (auto simp: accounting_only_def)
  show ?thesis
    using free pk by (simp add: s' s2 t s3 new_StringTableHash_def get_size_log2_def)
qed



lemma rehashed_gc_notification [simp]: "rehashed (gc_notification s n) = rehashed s"
  by (simp add: gc_notification_def trigger_concurrent_work_def Let_def)

lemma move_nodes_Inl: "move_nodes C s l new ns = Inl e \<Longrightarrow> e = Out_Of_Memory"
proof (induction ns arbitrary: s new)
  case Nil
  then show ?case by simp
next
  case (Cons n ns)
  show ?case
  proof (cases "get_hash C s n")
    case (Inl e')
    with Cons.prems show ?thesis
      by (auto simp: get_hash_def split: option.splits)
  next
    case (Inr p)
    with Cons.prems Cons.IH show ?thesis
      by (cases p) (auto simp: Let_def split: if_splits)
  qed
qed






lemma hash_string_accounting:
  "accounting_only s s' \<Longrightarrow> hash_string C s' str b = hash_string C s str b"
  by (auto simp: accounting_only_def hash_string_def)

lemma get_hash_live:
  assumes "get_hash C s n = Inr (hash, False)"
  shows "\<exists>v. peek (oop_storage s) n = Some v \<and> hash = hash_string C s (chars v) (alt_hash s)"
  using assms
  by (auto simp: get_hash_def as_unicode_string_or_null_def split: option.splits if_splits)

lemma get_hash_dead:
  assumes "get_hash C s n = Inr (hash, True)"
  shows "peek (oop_storage s) n = None"
  using assms
  by (auto simp: get_hash_def split: option.splits)

lemma move_nodes_in_place:
  assumes "move_nodes C s l new ns = Inr (s', new')"
    and "\<And>i w v. w \<in> set (new i) \<Longrightarrow> peek (oop_storage s) w = Some v \<Longrightarrow>
           unat (hash_string C s (chars v) (alt_hash s)) mod 2 ^ l = i"
    and "w \<in> set (new' i)" and "peek (oop_storage s') w = Some v"
  shows "unat (hash_string C s (chars v) (alt_hash s)) mod 2 ^ l = i"
  using assms
proof (induction ns arbitrary: s new)
  case Nil
  then show ?case by auto
next
  case (Cons n ns)
  from Cons.prems(1) obtain hash is_dead where h: "get_hash C s n = Inr (hash, is_dead)"
    by (auto split: sum.splits)
  show ?case
  proof (cases is_dead)
    case True
    with h have dead: "peek (oop_storage s) n = None" by (simp add: get_hash_dead)
    let ?s1 = "free_node s n"
    from True Cons.prems(1) h have m: "move_nodes C ?s1 l new ns = Inr (s', new')" by simp
    have pk: "peek (oop_storage ?s1) = peek (oop_storage s)"
      using peek_release_dead [OF dead] by (auto simp: free_node_def item_removed_def)
    have hs: "hash_string C ?s1 str b = hash_string C s str b" for str b
      by (rule hash_string_accounting) simp
    have ah: "alt_hash ?s1 = alt_hash s" by (simp add: free_node_def item_removed_def)
    have "unat (hash_string C ?s1 (chars v) (alt_hash ?s1)) mod 2 ^ l = i"
    proof (rule Cons.IH [OF m _ Cons.prems(3,4)])
      fix i w v
      assume "w \<in> set (new i)" "peek (oop_storage ?s1) w = Some v"
      then show "unat (hash_string C ?s1 (chars v) (alt_hash ?s1)) mod 2 ^ l = i"
        using Cons.prems(2) [of w i v] by (simp add: pk hs ah)
    qed
    then show ?thesis by (simp add: hs ah)
  next
    case False
    with h have "get_hash C s n = Inr (hash, False)" by simp
    from get_hash_live [OF this] obtain v' where v': "peek (oop_storage s) n = Some v'"
      and hash: "hash = hash_string C s (chars v') (alt_hash s)"
      by blast
    let ?j = "unat hash mod 2 ^ l"
    from False Cons.prems(1) h
    have m: "move_nodes C s l (new(?j := new ?j @ [n])) ns = Inr (s', new')"
      by (simp add: Let_def)
    show ?thesis
    proof (rule Cons.IH [OF m _ Cons.prems(3,4)])
      fix i w v
      assume w: "w \<in> set ((new(?j := new ?j @ [n])) i)" and p: "peek (oop_storage s) w = Some v"
      show "unat (hash_string C s (chars v) (alt_hash s)) mod 2 ^ l = i"
      proof (cases "w = n \<and> i = ?j")
        case True
        with p v' hash show ?thesis by simp
      next
        case False
        with w have "w \<in> set (new i)" by (auto split: if_splits)
        then show ?thesis using p by (rule Cons.prems(2))
      qed
    qed
  qed
qed

lemma do_rehash_in_place:
  assumes "do_rehash C s = Inr (s', True)"
  shows "slots_in_place C s'"
proof -
  let ?new = "new_StringTableHash (get_size_log2 (local_table s)) END_SIZE REHASH_LEN"
  let ?s1 = "s\<lparr>alt_hash := True\<rparr>"
  from assms have safe: "is_safepoint_safe (local_table s)"
    by (auto simp: do_rehash_def split: if_splits)
  with assms obtain s2 t where mv: "try_move_nodes_to C ?s1 ?new = Inr (Some (s2, t))"
    and s': "s' = s2\<lparr>local_table := t\<rparr>"
    by (auto simp: do_rehash_def Let_def split: sum.splits option.splits)
  from mv obtain s3 new where
    m: "move_nodes C ?s1 (size_log2 ?new) (buckets ?new)
          (concat (map (buckets (local_table s)) [0..<2 ^ size_log2 (local_table s)])) = Inr (s3, new)"
    and s2: "s2 = s3\<lparr>local_table := (local_table s)\<lparr>buckets := (\<lambda>i. [])\<rparr>\<rparr>"
    and t: "t = ?new\<lparr>buckets := new\<rparr>"
    by (auto simp: try_move_nodes_to_def Let_def split: sum.splits if_splits)
  from move_nodes_frame [OF m] have acc: "accounting_only ?s1 s3" by simp
  have place: "unat (hash_string C ?s1 (chars v) (alt_hash ?s1)) mod 2 ^ size_log2 ?new = i"
    if "w \<in> set (new i)" "peek (oop_storage s3) w = Some v" for w i v
    by (rule move_nodes_in_place [OF m _ that]) (simp add: new_StringTableHash_def)
  have hs: "hash_string C s' str b = hash_string C ?s1 str b" for str b
    using acc by (auto simp: s' s2 accounting_only_def hash_string_def)
  have ah: "alt_hash s'" using acc by (auto simp: s' s2 accounting_only_def)
  have st: "oop_storage s' = oop_storage s3" by (simp add: s' s2)
  have lt: "local_table s' = ?new\<lparr>buckets := new\<rparr>" by (simp add: s' t)
  show ?thesis
    unfolding slots_in_place_def list_all_iff slot_in_place_def
    using place ah
    by (auto simp: st lt hs bucket_index_def new_StringTableHash_def split: option.splits)
qed

lemma do_rehash_Inl: "do_rehash C s = Inl e \<Longrightarrow> e = Out_Of_Memory"
  by (auto simp: do_rehash_def try_move_nodes_to_def Let_def
        split: if_splits sum.splits option.splits dest: move_nodes_Inl)

lemma do_rehash_failed:
  assumes "task_in_flight (local_table s) \<or> mid_transition (local_table s)" "\<not> alt_hash s"
  shows "do_rehash C s = Inr (s, False)"
proof (cases "is_safepoint_safe (local_table s)")
  case True
  with assms(1) have "task_in_flight (local_table s)" by (simp add: is_safepoint_safe_def)
  with True assms(2) show ?thesis by (simp add: do_rehash_busy)
next
  case False
  then show ?thesis by (rule do_rehash_unsafe)
qed

lemma rehash_table_failed:
  assumes "\<not> rehashed s"
    and "\<not> (double_greater (get_load_factor s) PREF_AVG_LIST_LEN \<and>
            \<not> is_max_size_reached (local_table s))"
    and "task_in_flight (local_table s) \<or> mid_transition (local_table s)"
    and "\<not> alt_hash s"
  shows "rehash_table C seed s = Inr (s\<lparr>alt_hash_seed := seed, needs_rehashing := False\<rparr>)"
proof -
  have "do_rehash C (s\<lparr>alt_hash_seed := seed\<rparr>) = Inr (s\<lparr>alt_hash_seed := seed\<rparr>, False)"
    using assms(3,4) by (intro do_rehash_failed) simp_all
  with assms(1,2) show ?thesis by (auto simp: rehash_table_def Let_def)
qed

theorem do_concurrent_work_selects_witness:
  "do_concurrent_work example_collab ((create_table 2 (vm_start [] 8))\<lparr>items_count := 5\<rparr>) =
     (case grow example_collab ((create_table 2 (vm_start [] 8))\<lparr>items_count := 5\<rparr>) of
        Inl e \<Rightarrow> Inl e | Inr s' \<Rightarrow> Inr (s'\<lparr>has_work := False\<rparr>)) \<and>
   do_concurrent_work example_collab ((create_table 2 (vm_start [] 8))\<lparr>items_count := 4\<rparr>) =
     Inr ((clean_dead_entries ((create_table 2 (vm_start [] 8))\<lparr>items_count := 4\<rparr>))
            \<lparr>has_work := False\<rparr>)"
proof -
  have c: "ceil_log2 2 = 1" by (simp add: ceil_log2_def compute_bitlen)
  have k: "(1::nat) \<le> END_SIZE" by (simp add: END_SIZE_def)
  have sz: "current_size ((create_table 2 (vm_start [] 8))\<lparr>items_count := n\<rparr>) = 2 ^ 1"
    for n by (simp add: create_table_def c)
  show ?thesis
    using do_concurrent_work_selects [OF sz [of 5] k, of example_collab]
      do_concurrent_work_selects [OF sz [of 4] k, of example_collab]
    by (simp add: create_table_def c vm_start_def is_max_size_reached_def
          new_StringTableHash_def END_SIZE_def)
qed

theorem rehash_table_prefers_growing_witness:
  "rehash_table example_collab 7
     ((create_table 2 (vm_start [] 8))\<lparr>items_count := 5, needs_rehashing := True\<rparr>) =
   Inr ((create_table 2 (vm_start [] 8))
          \<lparr>items_count := 5, needs_rehashing := False, has_work := True,
           service_lock_notified := 1\<rparr>)"
proof -
  have c: "ceil_log2 2 = 1" by (simp add: ceil_log2_def compute_bitlen)
  have k: "(1::nat) \<le> END_SIZE" by (simp add: END_SIZE_def)
  let ?s = "(create_table 2 (vm_start [] 8))\<lparr>items_count := 5, needs_rehashing := True\<rparr>"
  have sz: "current_size ?s = 2 ^ 1" by (simp add: create_table_def c)
  have load: "2 * unat (current_size ?s) < unat (items_count ?s)"
    by (simp add: create_table_def c)
  have nm: "\<not> is_max_size_reached (local_table ?s)"
    by (simp add: create_table_def c is_max_size_reached_def new_StringTableHash_def END_SIZE_def)
  show ?thesis
    using rehash_table_prefers_growing [OF sz k load nm, of example_collab 7]
    by (simp add: create_table_def c vm_start_def)
qed




text \<open>
  C7, as amended. \<open>alt_hash\<close> is not set, as in every state in which \<open>rehash_table\<close>
  reaches \<open>do_rehash\<close>. A \<open>do_rehash\<close> that returns true found the table free, built
  the new table with the bucket count of the old one, and left \<open>alt_hash\<close> set with
  every live slot in the bucket its alternate hash addresses. A \<open>do_rehash\<close> that
  returns false found a task in flight or the table in transition and returns the state
  it was called in: the activation of \<open>alt_hash\<close> is reverted and the old table stays.
  \<open>rehash_table\<close> then returns that state with the seed refreshed and
  \<open>needs_rehashing\<close> cleared.
\<close>

theorem failed_rehash_restores:
  assumes "\<not> alt_hash s"
  shows "(case do_rehash C s of
            Inl e \<Rightarrow> e = Out_Of_Memory
          | Inr (s', ok) \<Rightarrow>
              if ok
              then \<not> task_in_flight (local_table s) \<and> \<not> mid_transition (local_table s) \<and>
                   size_log2 (local_table s') = size_log2 (local_table s) \<and>
                   alt_hash s' \<and> slots_in_place C s'
              else (task_in_flight (local_table s) \<or> mid_transition (local_table s)) \<and>
                   s' = s) \<and>
         (\<not> rehashed s \<and>
          \<not> (double_greater (get_load_factor s) PREF_AVG_LIST_LEN \<and>
             \<not> is_max_size_reached (local_table s)) \<and>
          (task_in_flight (local_table s) \<or> mid_transition (local_table s)) \<longrightarrow>
            rehash_table C seed s =
              Inr (s\<lparr>alt_hash_seed := seed, needs_rehashing := False\<rparr>))"
proof (intro conjI impI)
  show "case do_rehash C s of
            Inl e \<Rightarrow> e = Out_Of_Memory
          | Inr (s', ok) \<Rightarrow>
              if ok
              then \<not> task_in_flight (local_table s) \<and> \<not> mid_transition (local_table s) \<and>
                   size_log2 (local_table s') = size_log2 (local_table s) \<and>
                   alt_hash s' \<and> slots_in_place C s'
              else (task_in_flight (local_table s) \<or> mid_transition (local_table s)) \<and>
                   s' = s"
  proof (cases "do_rehash C s")
    case (Inl e)
    then show ?thesis using do_rehash_Inl by simp
  next
    case (Inr p)
    obtain s' ok where p: "p = (s', ok)" by (cases p)
    show ?thesis
    proof (cases ok)
      case True
      with Inr p have d: "do_rehash C s = Inr (s', True)" by simp
      from do_rehash_True [OF d] do_rehash_in_place [OF d] show ?thesis
        by (simp add: d)
    next
      case False
      with Inr p have d: "do_rehash C s = Inr (s', False)" by simp
      from do_rehash_False [OF d] have busy:
        "task_in_flight (local_table s) \<or> mid_transition (local_table s)" by blast
      from do_rehash_failed [OF busy assms, of C] d have "s' = s" by simp
      with busy show ?thesis by (simp add: d)
    qed
  qed
next
  assume "\<not> rehashed s \<and>
          \<not> (double_greater (get_load_factor s) PREF_AVG_LIST_LEN \<and>
             \<not> is_max_size_reached (local_table s)) \<and>
          (task_in_flight (local_table s) \<or> mid_transition (local_table s))"
  then show "rehash_table C seed s =
              Inr (s\<lparr>alt_hash_seed := seed, needs_rehashing := False\<rparr>)"
    using assms by (intro rehash_table_failed) simp_all
qed

lemma busy_table_facts:
  "\<not> alt_hash busy_table" "\<not> rehashed busy_table" "needs_rehashing busy_table"
  "task_in_flight (local_table busy_table)"
  "\<not> double_greater (get_load_factor busy_table) PREF_AVG_LIST_LEN"
proof -
  have c: "ceil_log2 2 = 1" by (simp add: ceil_log2_def compute_bitlen)
  have k: "(1::nat) \<le> END_SIZE" by (simp add: END_SIZE_def)
  have sz: "current_size busy_table = 2 ^ 1" by (simp add: busy_table_def create_table_def c)
  show "\<not> double_greater (get_load_factor busy_table) PREF_AVG_LIST_LEN"
    unfolding load_factor_exceeds [OF sz k]
    by (simp add: busy_table_def create_table_def c vm_start_def)
  show "\<not> alt_hash busy_table" "\<not> rehashed busy_table" "needs_rehashing busy_table"
    "task_in_flight (local_table busy_table)"
    by (simp_all add: busy_table_def create_table_def c vm_start_def)
qed

theorem failed_rehash_restores_witness:
  "do_rehash example_collab busy_table = Inr (busy_table, False) \<and>
   rehash_table example_collab 7 busy_table =
     Inr (busy_table\<lparr>alt_hash_seed := 7, needs_rehashing := False\<rparr>)"
proof -
  have "do_rehash example_collab busy_table = Inr (busy_table, False)"
    using busy_table_facts by (intro do_rehash_failed) simp_all
  then show ?thesis
    using failed_rehash_restores [OF busy_table_facts(1), of example_collab 7] busy_table_facts
    by simp
qed

text \<open>
  C7 as stated has the refreshed seed as the only change of a failed rehash. In
  \<open>busy_table\<close> the rehash fails and \<open>rehash_table\<close> clears \<open>needs_rehashing\<close> as well.
\<close>

theorem failed_rehash_clears_flag_counterexample:
  "do_rehash example_collab (busy_table\<lparr>alt_hash_seed := 7\<rparr>) =
     Inr (busy_table\<lparr>alt_hash_seed := 7\<rparr>, False) \<and>
   needs_rehashing busy_table \<and>
   rehash_table example_collab 7 busy_table \<noteq> Inr (busy_table\<lparr>alt_hash_seed := 7\<rparr>)"
proof -
  have 1: "do_rehash example_collab (busy_table\<lparr>alt_hash_seed := 7\<rparr>) =
     Inr (busy_table\<lparr>alt_hash_seed := 7\<rparr>, False)"
    using busy_table_facts by (intro do_rehash_failed) simp_all
  have 2: "rehash_table example_collab 7 busy_table =
     Inr (busy_table\<lparr>alt_hash_seed := 7, needs_rehashing := False\<rparr>)"
    using busy_table_facts by (intro rehash_table_failed) simp_all
  have "needs_rehashing (busy_table\<lparr>alt_hash_seed := 7\<rparr>)" using busy_table_facts(3) by simp
  moreover have "\<not> needs_rehashing (busy_table\<lparr>alt_hash_seed := 7, needs_rehashing := False\<rparr>)"
    by simp
  ultimately have "busy_table\<lparr>alt_hash_seed := 7, needs_rehashing := False\<rparr> \<noteq>
      busy_table\<lparr>alt_hash_seed := 7\<rparr>" by metis
  with 1 2 busy_table_facts(3) show ?thesis by simp
qed


subsection \<open>Ownership of the candidate\<close>


lemma fresh_handle_not_cell: "fresh_handle st \<notin> fst ` set (cells st)"
  using fresh_handle_cells [of "fresh_handle st" _ st] by auto

lemma fresh_handle_not_released: "fresh_handle st \<notin> set (released st)"
  using fresh_handle_released [of "fresh_handle st" st] by auto

lemma peek_allocate_other:
  "w' \<noteq> w \<Longrightarrow> peek (st\<lparr>cells := (w, v) # cells st\<rparr>) w' = peek st w'"
  by (simp add: peek_def)

lemma equals_allocate_other:
  "w' \<noteq> w \<Longrightarrow> equals (st\<lparr>cells := (w, v) # cells st\<rparr>) lk w' = equals st lk w'"
  by (cases lk) (simp_all add: equals_Jchar equals_Oop peek_allocate_other del: equals.simps)

lemma get_node_allocate_other:
  "w \<notin> set b \<Longrightarrow> get_node (st\<lparr>cells := (w, v) # cells st\<rparr>) lk b = get_node st lk b"
  by (induction b) (auto simp: equals_allocate_other split: probe.splits)

lemma release_fresh:
  assumes "w \<notin> fst ` set (cells st)"
  shows "release (st\<lparr>cells := (w, v) # cells st\<rparr>) w = st\<lparr>released := w # released st\<rparr>"
proof -
  have "filter (\<lambda>c. fst c \<noteq> w) (cells st) = cells st"
    using assms by (intro filter_True) auto
  then show ?thesis by (simp add: release_def)
qed

lemma do_intern_loop_once:
  assumes heap: "2 \<le> c_heap_left s"
    and fresh: "fresh_handle (oop_storage s) \<notin>
                  set (buckets (local_table s) (bucket_index (local_table s) (get_hash_of lookup_f)))"
  shows "do_intern_loop s string_h lookup_f =
     (let st = oop_storage s; w = fresh_handle st; t = local_table s;
          i = bucket_index t (get_hash_of lookup_f); bucket = buckets t i;
          rehash_warning = grow_hint t < length bucket
      in case get_node st lookup_f bucket of
           None \<Rightarrow>
             Inr (update_needs_rehash
                    (s\<lparr>oop_storage := st\<lparr>cells := (w, Some string_h) # cells st\<rparr>,
                       items_count := items_count s + 1,
                       c_heap_left := c_heap_left s - 2,
                       local_table := t\<lparr>buckets := (buckets t)(i := bucket @ [w])\<rparr>\<rparr>)
                    rehash_warning,
                  Some string_h)
         | Some found \<Rightarrow>
             Inr (update_needs_rehash
                    (s\<lparr>oop_storage := st\<lparr>released := w # released st\<rparr>\<rparr>) rehash_warning,
                  Some found))"
proof -
  define st where "st = oop_storage s"
  define w where "w = fresh_handle st"
  define t where "t = local_table s"
  define i where "i = bucket_index t (get_hash_of lookup_f)"
  define b where "b = buckets t i"
  define st1 where "st1 = st\<lparr>cells := (w, Some string_h) # cells st\<rparr>"
  define s1 where "s1 = s\<lparr>oop_storage := st1, c_heap_left := c_heap_left s - 1\<rparr>"
  define s1' where "s1' = s1\<lparr>items_count := items_count s + 1, c_heap_left := c_heap_left s - 2\<rparr>"
  have wb: "w \<notin> set b" using fresh by (simp add: w_def st_def b_def i_def t_def)
  have new: "WeakHandle_new s string_h = Inr (s1, w)"
    using heap by (simp add: WeakHandle_new_def allocate_def Let_def s1_def st1_def w_def st_def)
  have alloc: "allocate_node s1 = Inr s1'"
    using heap by (simp add: allocate_node_def item_added_def Let_def s1_def s1'_def)
  have gn: "get_node st1 lookup_f b = get_node st lookup_f b"
    unfolding st1_def using wb by (rule get_node_allocate_other)
  have t1: "local_table s1' = t" "oop_storage s1' = st1"
    by (simp_all add: s1'_def s1_def t_def)
  show ?thesis
  proof (cases "get_node st lookup_f b")
    case None
    have ins: "table_insert s1 lookup_f w =
        Inr (s1'\<lparr>local_table := t\<lparr>buckets := (buckets t)(i := b @ [w])\<rparr>\<rparr>, True,
             grow_hint t < length b)"
      using None
      by (simp add: table_insert_def alloc Let_def t1 i_def [symmetric] b_def [symmetric] gn)
    have rs: "resolve st1 w = Some string_h" by (simp add: resolve_def peek_def st1_def)
    have "do_intern_loop s string_h lookup_f =
        Inr (update_needs_rehash (s1'\<lparr>local_table := t\<lparr>buckets := (buckets t)(i := b @ [w])\<rparr>\<rparr>)
               (grow_hint t < length b), Some string_h)"
      by (subst do_intern_loop.simps) (simp add: new ins t1 rs)
    then show ?thesis
      using None
      by (simp add: Let_def st_def [symmetric] w_def [symmetric] t_def [symmetric]
            i_def [symmetric] b_def [symmetric])
         (simp add: s1'_def s1_def st1_def)
  next
    case (Some found)
    have ins: "table_insert s1 lookup_f w = Inr (free_node s1' w, False, grow_hint t < length b)"
      using Some
      by (simp add: table_insert_def alloc Let_def t1 i_def [symmetric] b_def [symmetric] gn)
    have rel: "release st1 w = st\<lparr>released := w # released st\<rparr>"
      unfolding st1_def w_def by (rule release_fresh) (rule fresh_handle_not_cell)
    have s2: "free_node s1' w = s\<lparr>oop_storage := st\<lparr>released := w # released st\<rparr>\<rparr>"
      using heap by (simp add: free_node_def item_removed_def s1'_def s1_def rel)
    have get: "table_get (free_node s1' w) lookup_f = (Some found, grow_hint t < length b)"
      using Some wb
      by (simp add: s2 table_get_def Let_def t_def [symmetric] i_def [symmetric] b_def [symmetric]
            rel [symmetric] get_node_release_other gn)
    have "do_intern_loop s string_h lookup_f =
        Inr (update_needs_rehash (free_node s1' w) (grow_hint t < length b), Some found)"
      by (subst do_intern_loop.simps) (simp add: new ins get)
    then show ?thesis
      using Some
      by (simp add: Let_def st_def [symmetric] w_def [symmetric] t_def [symmetric]
            i_def [symmetric] b_def [symmetric] s2)
  qed
qed


lemma get_node_Some:
  assumes "get_node st lk b = Some found"
  shows "\<exists>n \<in> set b. equals st lk n = Found found"
  using assms by (induction b) (auto split: probe.splits)

lemma equals_Found_Oop:
  "equals st (StringTableLookupOop hash string) n = Found found \<Longrightarrow>
     peek st n = Some found \<and> chars found = chars string"
  by (auto simp: equals_Oop simp del: equals.simps split: option.splits if_splits)

text \<open>
  C3. \<open>do_intern\<close> is called with a handle whose characters are \<open>name\<close>, or with
  none and room for the new string; the native heap has room for a cell and a slot, and
  no slot of the addressed bucket names the cell the storage hands out next. The
  candidate's weak handle \<open>w\<close> is that cell, in use by nobody and never released
  before. If the bucket holds no live equal string, the slot of \<open>w\<close> is appended to
  it, \<open>items_count\<close> is one more, and the candidate is returned. If it holds one, the
  string found in the table is returned, and of the state only the storage has
  changed: its cells are those before the call, so \<open>w\<close> is not left in use, and its
  releases are those before the call with \<open>w\<close> added once, by \<open>free_node\<close> inside
  \<open>table_insert\<close>. In both cases \<open>do_intern\<close> itself releases nothing: the handle is
  the table's.
\<close>

theorem do_intern_takes_ownership:
  assumes "case string_or_null_h of
             Some h \<Rightarrow> chars h = name
           | None \<Rightarrow> 0 < java_heap_left s \<and> \<not> pending_exception s"
    and "2 \<le> c_heap_left s"
    and "fresh_handle (oop_storage s) \<notin>
           set (buckets (local_table s) (bucket_index (local_table s) hash))"
  shows
    "(let (s0, string) =
            (case string_or_null_h of
               Some h \<Rightarrow> (s, h)
             | None \<Rightarrow> (s\<lparr>java_heap_top := Suc (java_heap_top s),
                          java_heap_left := java_heap_left s - 1\<rparr>,
                        String_oop (java_heap_top s) name));
          st = oop_storage s; w = fresh_handle st; t = local_table s;
          i = bucket_index t hash; bucket = buckets t i;
          rehash_warning = grow_hint t < length bucket
      in w \<notin> fst ` set (cells st) \<and> w \<notin> set (released st) \<and>
         do_intern s string_or_null_h name hash =
           (case get_node st (StringTableLookupOop hash string) bucket of
              None \<Rightarrow>
                Inr (update_needs_rehash
                       (s0\<lparr>oop_storage := st\<lparr>cells := (w, Some string) # cells st\<rparr>,
                           items_count := items_count s + 1,
                           c_heap_left := c_heap_left s - 2,
                           local_table := t\<lparr>buckets := (buckets t)(i := bucket @ [w])\<rparr>\<rparr>)
                       rehash_warning,
                     Some string)
            | Some found \<Rightarrow>
                Inr (update_needs_rehash
                       (s0\<lparr>oop_storage := st\<lparr>released := w # released st\<rparr>\<rparr>) rehash_warning,
                     Some found)) \<and>
         (case get_node st (StringTableLookupOop hash string) bucket of
            None \<Rightarrow> True
          | Some found \<Rightarrow>
              chars found = name \<and> list_ex (\<lambda>n. peek st n = Some found) bucket))"
proof -
  define s0 where "s0 = (case string_or_null_h of Some h \<Rightarrow> s
      | None \<Rightarrow> s\<lparr>java_heap_top := Suc (java_heap_top s), java_heap_left := java_heap_left s - 1\<rparr>)"
  define string where "string = (case string_or_null_h of Some h \<Rightarrow> h
      | None \<Rightarrow> String_oop (java_heap_top s) name)"
  let ?lk = "StringTableLookupOop hash string"
  have chars: "chars string = name"
    using assms(1) by (cases string_or_null_h) (simp_all add: string_def)
  have same: "oop_storage s0 = oop_storage s" "local_table s0 = local_table s"
    "c_heap_left s0 = c_heap_left s" "items_count s0 = items_count s"
    by (cases string_or_null_h; simp add: s0_def)+
  have "do_intern s string_or_null_h name hash = do_intern_loop s0 string ?lk"
  proof (cases string_or_null_h)
    case None
    with assms(1) show ?thesis
      by (simp add: do_intern_def do_intern_insert_def create_from_unicode_def
            java_lang_String_equals_def s0_def string_def)
  next
    case (Some h)
    with assms(1) show ?thesis
      by (simp add: do_intern_def do_intern_insert_def java_lang_String_equals_def
            s0_def string_def)
  qed
  also have "\<dots> =
     (let st = oop_storage s0; w = fresh_handle st; t = local_table s0;
          i = bucket_index t (get_hash_of ?lk); bucket = buckets t i;
          rehash_warning = grow_hint t < length bucket
      in case get_node st ?lk bucket of
           None \<Rightarrow>
             Inr (update_needs_rehash
                    (s0\<lparr>oop_storage := st\<lparr>cells := (w, Some string) # cells st\<rparr>,
                        items_count := items_count s0 + 1,
                        c_heap_left := c_heap_left s0 - 2,
                        local_table := t\<lparr>buckets := (buckets t)(i := bucket @ [w])\<rparr>\<rparr>)
                    rehash_warning,
                  Some string)
         | Some found \<Rightarrow>
             Inr (update_needs_rehash
                    (s0\<lparr>oop_storage := st\<lparr>released := w # released st\<rparr>\<rparr>) rehash_warning,
                  Some found))"
    using assms(2,3) by (intro do_intern_loop_once) (simp_all add: same)
  finally have main: "do_intern s string_or_null_h name hash =
     (let st = oop_storage s; w = fresh_handle st; t = local_table s;
          i = bucket_index t hash; bucket = buckets t i;
          rehash_warning = grow_hint t < length bucket
      in case get_node st ?lk bucket of
           None \<Rightarrow>
             Inr (update_needs_rehash
                    (s0\<lparr>oop_storage := st\<lparr>cells := (w, Some string) # cells st\<rparr>,
                        items_count := items_count s + 1,
                        c_heap_left := c_heap_left s - 2,
                        local_table := t\<lparr>buckets := (buckets t)(i := bucket @ [w])\<rparr>\<rparr>)
                    rehash_warning,
                  Some string)
         | Some found \<Rightarrow>
             Inr (update_needs_rehash
                    (s0\<lparr>oop_storage := st\<lparr>released := w # released st\<rparr>\<rparr>) rehash_warning,
                  Some found))"
    by (simp add: same Let_def split: option.splits)
  have found: "case get_node (oop_storage s) ?lk
                      (buckets (local_table s) (bucket_index (local_table s) hash)) of
            None \<Rightarrow> True
          | Some found \<Rightarrow>
              chars found = name \<and>
              list_ex (\<lambda>n. peek (oop_storage s) n = Some found)
                (buckets (local_table s) (bucket_index (local_table s) hash))"
  proof (cases "get_node (oop_storage s) ?lk
                      (buckets (local_table s) (bucket_index (local_table s) hash))")
    case None
    then show ?thesis by simp
  next
    case (Some found)
    from get_node_Some [OF Some] equals_Found_Oop chars Some show ?thesis
      by (fastforce simp: list_ex_iff)
  qed
  have pair: "(case string_or_null_h of
               Some h \<Rightarrow> (s, h)
             | None \<Rightarrow> (s\<lparr>java_heap_top := Suc (java_heap_top s),
                          java_heap_left := java_heap_left s - 1\<rparr>,
                        String_oop (java_heap_top s) name)) = (s0, string)"
    by (cases string_or_null_h) (simp_all add: s0_def string_def)
  show ?thesis
    unfolding pair
    using main found fresh_handle_not_cell [of "oop_storage s"]
      fresh_handle_not_released [of "oop_storage s"]
    by (simp add: Let_def)
qed

theorem do_intern_takes_ownership_witness:
  "do_intern (create_table 2 (vm_start [] 8)) None [97] 97 = Inr (one_string, Some (String_oop 0 [97])) \<and>
   do_intern one_string (Some (String_oop 5 [97])) [97] 97 =
     Inr (one_string\<lparr>oop_storage := \<lparr>cells = [(1, Some (String_oop 0 [97]))], released = [2]\<rparr>\<rparr>,
          Some (String_oop 0 [97]))"
proof -
  have c: "ceil_log2 2 = 1" by (simp add: ceil_log2_def compute_bitlen)
  let ?s = "create_table 2 (vm_start [] 8)"
  have a: "case None of Some h \<Rightarrow> chars h = [97 :: jchar]
           | None \<Rightarrow> 0 < java_heap_left ?s \<and> \<not> pending_exception ?s"
    by (simp add: create_table_def vm_start_def Let_def)
  have b: "2 \<le> c_heap_left ?s" by (simp add: create_table_def vm_start_def Let_def)
  have f: "fresh_handle (oop_storage ?s) \<notin>
           set (buckets (local_table ?s) (bucket_index (local_table ?s) 97))"
    by (simp add: create_table_def vm_start_def new_StringTableHash_def c Let_def)
  have a': "case Some (String_oop 5 [97]) of Some h \<Rightarrow> chars h = [97 :: jchar]
           | None \<Rightarrow> 0 < java_heap_left one_string \<and> \<not> pending_exception one_string"
    by simp
  have b': "2 \<le> c_heap_left one_string" by (simp add: one_string_def)
  have f': "fresh_handle (oop_storage one_string) \<notin>
           set (buckets (local_table one_string) (bucket_index (local_table one_string) 97))"
    by (simp add: one_string_def bucket_index_def fresh_handle_def new_StringTableHash_def)
  show ?thesis
    using do_intern_takes_ownership [OF a b f] do_intern_takes_ownership [OF a' b' f']
    by (simp add: one_string_def create_table_def vm_start_def new_StringTableHash_def c
          Let_def bucket_index_def fresh_handle_def create_weak_def update_needs_rehash_def
          REHASH_LEN_def peek_def resolve_def java_lang_String_equals_oop_def)
qed


subsection \<open>The transfer of the archive table\<close>

lemma grown_from_refl [simp]: "grown_from s s"
  by (simp add: grown_from_def)

lemma grown_from_trans: "grown_from s s' \<Longrightarrow> grown_from s' s'' \<Longrightarrow> grown_from s s''"
proof -
  assume a: "grown_from s s'" and b: "grown_from s' s''"
  have 1: "size_log2 (local_table s'') = size_log2 (local_table s)"
    using a b by (simp add: grown_from_def)
  have 2: "set (buckets (local_table s) i) \<subseteq> set (buckets (local_table s'') i)" for i
    using a b unfolding grown_from_def by (blast intro: subset_trans)
  have 3: "peek (oop_storage s'') n = Some v" if "peek (oop_storage s) n = Some v" for n v
    using a b that unfolding grown_from_def by blast
  from 1 2 3 show ?thesis unfolding grown_from_def by blast
qed

lemma grown_from_update_needs_rehash [simp]: "grown_from s (update_needs_rehash s b)"
  by (simp add: grown_from_def update_needs_rehash_def)

lemma get_node_iff:
  "get_node st lk b \<noteq> None \<longleftrightarrow> (\<exists>n \<in> set b. \<exists>f. equals st lk n = Found f)"
  by (induction b) (auto split: probe.splits)

lemma equals_Oop_Jchar:
  "equals st (StringTableLookupOop hash string) n =
   equals st (StringTableLookupJchar hash' (chars string)) n"
  by (auto simp: equals_Oop equals_Jchar simp del: equals.simps split: option.splits)

lemma get_node_Oop_Jchar:
  "get_node st (StringTableLookupOop hash string) b =
   get_node st (StringTableLookupJchar hash' (chars string)) b"
  by (induction b)
    (simp_all add: equals_Oop_Jchar [of st hash string _ hash'] del: equals.simps
       split: probe.splits)

lemma equals_Found_peek: "equals st lk n = Found f \<Longrightarrow> peek st n = Some f"
  by (cases lk) (auto simp: equals_Oop equals_Jchar simp del: equals.simps split: option.splits if_splits)

lemma equals_peek_cong: "peek st' n = peek st n \<Longrightarrow> equals st' lk n = equals st lk n"
  by (cases lk) (simp_all add: equals_Oop equals_Jchar del: equals.simps)

lemma first_round_frame:
  assumes new: "WeakHandle_new s string_h = Inr (s1, wh)"
    and ins: "table_insert s1 lookup_f wh = Inr (s2, inserted, warning)"
  shows "grown_from s s2"
    and "inserted \<Longrightarrow>
           wh \<in> set (buckets (local_table s2) (bucket_index (local_table s2) (get_hash_of lookup_f))) \<and>
           peek (oop_storage s2) wh = Some string_h"
proof -
  define st where "st = oop_storage s"
  define st1 where "st1 = st\<lparr>cells := (fresh_handle st, Some string_h) # cells st\<rparr>"
  define t where "t = local_table s"
  define i where "i = bucket_index t (get_hash_of lookup_f)"
  from new have wh: "wh = fresh_handle st"
    and s1: "s1 = s\<lparr>oop_storage := st1, c_heap_left := c_heap_left s - 1\<rparr>"
    by (auto simp: WeakHandle_new_def allocate_def Let_def st_def st1_def split: if_splits)
  from ins obtain s1' where s1': "allocate_node s1 = Inr s1'"
    by (auto simp: table_insert_def split: sum.splits)
  then have s1'_eq: "s1' = (item_added s1)\<lparr>c_heap_left := c_heap_left (item_added s1) - 1\<rparr>"
    by (auto simp: allocate_node_def Let_def split: if_splits)
  have t1: "local_table s1' = t" and st1': "oop_storage s1' = st1"
    by (simp_all add: s1'_eq s1 item_added_def t_def)
  have live: "peek st1 n = Some v" if "peek st n = Some v" for n v
  proof -
    from that have "n \<in> fst ` set (cells st)"
      by (auto simp: peek_def split: option.splits dest: map_of_SomeD intro: rev_image_eqI)
    then have "n \<noteq> fresh_handle st" using fresh_handle_not_cell by metis
    then show ?thesis using that by (simp add: st1_def peek_allocate_other)
  qed
  have rel: "release st1 wh = st\<lparr>released := wh # released st\<rparr>"
    unfolding st1_def wh by (rule release_fresh) (rule fresh_handle_not_cell)
  show "grown_from s s2"
  proof (cases inserted)
    case True
    with ins s1' have "s2 = s1'\<lparr>local_table := t\<lparr>buckets := (buckets t)(i := buckets t i @ [wh])\<rparr>\<rparr>"
      by (auto simp: table_insert_def Let_def t1 i_def split: option.splits)
    then show ?thesis
      using live by (auto simp: grown_from_def st1' t_def [symmetric] st_def [symmetric])
  next
    case False
    with ins s1' have "s2 = free_node s1' wh"
      by (auto simp: table_insert_def Let_def split: option.splits)
    then have "local_table s2 = t" "peek (oop_storage s2) = peek st"
      by (simp_all add: free_node_def item_removed_def t1 st1' rel peek_def fun_eq_iff)
    then show ?thesis by (simp add: grown_from_def t_def st_def)
  qed
  show "wh \<in> set (buckets (local_table s2) (bucket_index (local_table s2) (get_hash_of lookup_f))) \<and>
           peek (oop_storage s2) wh = Some string_h" if inserted
  proof -
    from that ins s1' have "s2 = s1'\<lparr>local_table := t\<lparr>buckets := (buckets t)(i := buckets t i @ [wh])\<rparr>\<rparr>"
      by (auto simp: table_insert_def Let_def t1 i_def split: option.splits)
    then show ?thesis
      by (simp add: st1' st1_def peek_def wh bucket_index_def i_def)
  qed
qed

lemma grown_from_do_intern_loop:
  "do_intern_loop s string_h lookup_f = Inr (s', r) \<Longrightarrow> grown_from s s'"
proof (induction s string_h lookup_f rule: do_intern_loop.induct)
  case (1 s string_h lookup_f)
  from "1.prems" obtain s1 wh where new: "WeakHandle_new s string_h = Inr (s1, wh)"
    by (subst (asm) do_intern_loop.simps) (auto split: sum.splits)
  from "1.prems" new obtain s2 inserted warning where
    ins: "table_insert s1 lookup_f wh = Inr (s2, inserted, warning)"
    by (subst (asm) do_intern_loop.simps) (auto split: sum.splits)
  have a: "grown_from s s2" using new ins by (rule first_round_frame)
  show ?case
  proof (cases inserted)
    case True
    with "1.prems" new ins have "s' = update_needs_rehash s2 warning"
      by (subst (asm) do_intern_loop.simps) simp
    then have "grown_from s2 s'" by simp
    with a show ?thesis by (rule grown_from_trans)
  next
    case False
    obtain res w' where get: "table_get s2 lookup_f = (res, w')"
      by (cases "table_get s2 lookup_f")
    show ?thesis
    proof (cases res)
      case None
      with "1.prems" new ins False get
      have "do_intern_loop s2 string_h lookup_f = Inr (s', r)"
        by (subst (asm) do_intern_loop.simps) simp
      then have "grown_from s2 s'"
        using "1.IH" [OF new refl ins refl refl False, of res w'] get None by simp
      with a show ?thesis by (rule grown_from_trans)
    next
      case (Some res_oop)
      with "1.prems" new ins False get have "s' = update_needs_rehash s2 w'"
        by (subst (asm) do_intern_loop.simps) simp
      then have "grown_from s2 s'" by simp
      with a show ?thesis by (rule grown_from_trans)
    qed
  qed
qed

lemma table_get_update_needs_rehash [simp]:
  "table_get (update_needs_rehash s b) lk = table_get s lk"
  by (simp add: table_get_def update_needs_rehash_def)

lemma do_intern_loop_slot:
  assumes "do_intern_loop s string_h (StringTableLookupOop hash string_h) = Inr (s', r)"
  shows "fst (table_get s' (StringTableLookupOop hash string_h)) \<noteq> None \<and>
         (\<exists>found. r = Some found \<and> chars found = chars string_h)"
  using assms
proof (induction s string_h "StringTableLookupOop hash string_h" arbitrary: rule: do_intern_loop.induct)
  case (1 s string_h)
  let ?lk = "StringTableLookupOop hash string_h"
  from "1.prems" obtain s1 wh where new: "WeakHandle_new s string_h = Inr (s1, wh)"
    by (subst (asm) do_intern_loop.simps) (auto split: sum.splits)
  from "1.prems" new obtain s2 inserted warning where
    ins: "table_insert s1 ?lk wh = Inr (s2, inserted, warning)"
    by (subst (asm) do_intern_loop.simps) (auto split: sum.splits)
  show ?case
  proof (cases inserted)
    case True
    with "1.prems" new ins have s': "s' = update_needs_rehash s2 warning"
      and r: "r = resolve (oop_storage s2) wh"
      by (subst (asm) do_intern_loop.simps, simp)+
    from first_round_frame(2) [OF new ins True]
    have mem: "wh \<in> set (buckets (local_table s2) (bucket_index (local_table s2) hash))"
      and pk: "peek (oop_storage s2) wh = Some string_h" by simp_all
    have "equals (oop_storage s2) ?lk wh = Found string_h"
      using pk by (simp add: equals_Oop del: equals.simps)
    with mem have "get_node (oop_storage s2) ?lk
        (buckets (local_table s2) (bucket_index (local_table s2) hash)) \<noteq> None"
      unfolding get_node_iff by blast
    then have "fst (table_get s2 ?lk) \<noteq> None" by (simp add: table_get_def Let_def)
    then show ?thesis by (simp add: s' r resolve_def pk)
  next
    case False
    obtain res w' where get: "table_get s2 ?lk = (res, w')"
      by (cases "table_get s2 ?lk")
    show ?thesis
    proof (cases res)
      case None
      with "1.prems" new ins False get
      have "do_intern_loop s2 string_h ?lk = Inr (s', r)"
        by (subst (asm) do_intern_loop.simps) simp
      then show ?thesis
        using "1.hyps" [OF new refl ins refl refl False, of res w'] get None by simp
    next
      case (Some res_oop)
      with "1.prems" new ins False get have s': "s' = update_needs_rehash s2 w'"
        and r: "r = Some res_oop"
        by (subst (asm) do_intern_loop.simps, simp)+
      from get Some have "get_node (oop_storage s2) ?lk
          (buckets (local_table s2) (bucket_index (local_table s2) hash)) = Some res_oop"
        by (simp add: table_get_def Let_def)
      from get_node_Some [OF this] equals_Found_Oop have "chars res_oop = chars string_h"
        by blast
      with get Some show ?thesis by (simp add: s' r)
    qed
  qed
qed


lemma grown_from_do_intern:
  assumes "do_intern s string_or_null_h name hash = Inr (s', r)"
  shows "grown_from s s'"
proof (cases string_or_null_h)
  case (Some h)
  with assms have "do_intern_loop s h (StringTableLookupOop hash h) = Inr (s', r)"
    by (auto simp: do_intern_def do_intern_insert_def split: if_splits)
  then show ?thesis by (rule grown_from_do_intern_loop)
next
  case None
  obtain s1 string_h where c: "create_from_unicode s name = (s1, string_h)"
    by (cases "create_from_unicode s name")
  then have 1: "grown_from s s1"
    by (auto simp: create_from_unicode_def grown_from_def split: if_splits)
  show ?thesis
  proof (cases "pending_exception s1")
    case True
    with assms None c 1 show ?thesis by (simp add: do_intern_def)
  next
    case False
    with assms None c obtain str where
      "do_intern_loop s1 str (StringTableLookupOop hash str) = Inr (s', r)"
      by (auto simp: do_intern_def do_intern_insert_def split: option.splits if_splits)
    then have "grown_from s1 s'" by (rule grown_from_do_intern_loop)
    with 1 show ?thesis by (rule grown_from_trans)
  qed
qed

lemma do_lookup_eq:
  "do_lookup s name hash =
     (update_needs_rehash s (snd (table_get s (StringTableLookupJchar hash name))),
      fst (table_get s (StringTableLookupJchar hash name)))"
  by (simp add: do_lookup_def split: prod.splits)

lemma grown_from_intern:
  assumes "intern C s string_or_null_h name = Inr (s', r)"
  shows "grown_from s s'"
proof (cases "CompactHashtable_lookup (shared_table s) name (hash_code C name)")
  case (Some found)
  with assms show ?thesis by (simp add: intern_eq)
next
  case None
  let ?h = "hash_string C s name (alt_hash s)"
  let ?lk = "StringTableLookupJchar ?h name"
  let ?s1 = "update_needs_rehash s (snd (table_get s ?lk))"
  show ?thesis
  proof (cases "fst (table_get s ?lk)")
    case None': None
    with assms None have "do_intern ?s1 string_or_null_h name ?h = Inr (s', r)"
      by (simp add: intern_eq do_lookup_eq)
    then have "grown_from ?s1 s'" by (rule grown_from_do_intern)
    then show ?thesis by (rule grown_from_trans [OF grown_from_update_needs_rehash])
  next
    case (Some f)
    with assms None have "s' = ?s1" by (simp add: intern_eq do_lookup_eq)
    then show ?thesis by simp
  qed
qed

lemma CHECK_NULL_Inr:
  "CHECK_NULL x = Inr (s', r) \<Longrightarrow> \<exists>r0. x = Inr (s', r0) \<and> r = (if pending_exception s' then None else r0)"
  by (auto simp: CHECK_NULL_def split: sum.splits)

lemma intern_oop_Inr:
  assumes "intern_oop C s (Some string) = Inr (s', r)" "\<not> pending_exception s'"
  shows "\<not> pending_exception s \<and> length (chars string) \<le> resource_left s \<and>
         intern C s (Some string) (chars string) = Inr (s', r)"
proof -
  have fits: "length (chars string) \<le> resource_left s" and np: "\<not> pending_exception s"
    using assms
    by (auto simp: intern_oop_def as_unicode_string_def as_unicode_string_or_null_def
          split: if_splits)
  then have "CHECK_NULL (intern C s (Some string) (chars string)) = Inr (s', r)"
    using assms(1)
    by (simp add: intern_oop_def as_unicode_string_def as_unicode_string_or_null_def)
  from CHECK_NULL_Inr [OF this] assms(2) fits np show ?thesis by auto
qed

lemma live_slot_update_needs_rehash [simp]:
  "live_slot C (update_needs_rehash s b) name = live_slot C s name"
proof -
  have "alt_hash (update_needs_rehash s b) = alt_hash s"
    "alt_hash_seed (update_needs_rehash s b) = alt_hash_seed s"
    by (simp_all add: update_needs_rehash_def)
  then have "hash_string C (update_needs_rehash s b) name (alt_hash (update_needs_rehash s b)) =
      hash_string C s name (alt_hash s)"
    by (simp add: hash_string_def)
  then show ?thesis by (simp add: live_slot_def)
qed

lemma live_slot_iff:
  "live_slot C s name \<longleftrightarrow>
     (\<exists>n \<in> set (buckets (local_table s)
                 (bucket_index (local_table s) (hash_string C s name (alt_hash s)))).
        \<exists>f. equals (oop_storage s)
               (StringTableLookupJchar (hash_string C s name (alt_hash s)) name) n = Found f)"
proof -
  have "live_slot C s name \<longleftrightarrow>
      get_node (oop_storage s) (StringTableLookupJchar (hash_string C s name (alt_hash s)) name)
        (buckets (local_table s)
           (bucket_index (local_table s) (hash_string C s name (alt_hash s)))) \<noteq> None"
    by (simp add: live_slot_def table_get_def Let_def)
  then show ?thesis by (simp only: get_node_iff)
qed

lemma live_slot_mono:
  assumes "grown_from s s'" "flags_kept s s'" "live_slot C s name"
  shows "live_slot C s' name"
proof -
  let ?h = "hash_string C s name (alt_hash s)"
  let ?lk = "StringTableLookupJchar ?h name"
  have h: "hash_string C s' name (alt_hash s') = ?h"
    using assms(2) by (simp add: flags_kept_def hash_string_def)
  have i: "bucket_index (local_table s') ?h = bucket_index (local_table s) ?h"
    using assms(1) by (simp add: grown_from_def bucket_index_def)
  from assms(3) obtain n f where
    n: "n \<in> set (buckets (local_table s) (bucket_index (local_table s) ?h))"
    and e: "equals (oop_storage s) ?lk n = Found f"
    unfolding live_slot_iff by blast
  from e have pk: "peek (oop_storage s) n = Some f" by (rule equals_Found_peek)
  have "peek (oop_storage s') n = Some f"
    using assms(1) pk unfolding grown_from_def by blast
  with pk have "peek (oop_storage s') n = peek (oop_storage s) n" by simp
  then have "equals (oop_storage s') ?lk n = equals (oop_storage s) ?lk n"
    by (rule equals_peek_cong)
  with e have e': "equals (oop_storage s') ?lk n = Found f" by simp
  have "set (buckets (local_table s) (bucket_index (local_table s) ?h)) \<subseteq>
        set (buckets (local_table s') (bucket_index (local_table s) ?h))"
    using assms(1) unfolding grown_from_def by blast
  with n have n': "n \<in> set (buckets (local_table s') (bucket_index (local_table s') ?h))"
    unfolding i by blast
  show ?thesis
    unfolding live_slot_iff h using n' e' by blast
qed

lemma intern_live_slot:
  assumes "intern C s (Some string) (chars string) = Inr (s', r)"
    and "shared_table s = []"
  shows "live_slot C s' (chars string)"
proof -
  let ?name = "chars string"
  let ?h = "hash_string C s ?name (alt_hash s)"
  let ?lk = "StringTableLookupJchar ?h ?name"
  let ?s1 = "update_needs_rehash s (snd (table_get s ?lk))"
  have miss: "CompactHashtable_lookup (shared_table s) ?name (hash_code C ?name) = None"
    by (simp add: assms(2) CompactHashtable_lookup_def)
  have fk: "flags_kept s s'" using assms(1) by (rule flags_kept_intern)
  have h: "hash_string C s' ?name (alt_hash s') = ?h"
    using fk by (simp add: flags_kept_def hash_string_def)
  show ?thesis
  proof (cases "fst (table_get s ?lk)")
    case None
    with assms(1) miss have "do_intern ?s1 (Some string) ?name ?h = Inr (s', r)"
      by (simp add: intern_eq do_lookup_eq)
    then have "do_intern_loop ?s1 string (StringTableLookupOop ?h string) = Inr (s', r)"
      by (auto simp: do_intern_def do_intern_insert_def split: if_splits)
    from do_intern_loop_slot [OF this]
    have "fst (table_get s' (StringTableLookupOop ?h string)) \<noteq> None" by simp
    then show ?thesis
      by (simp add: live_slot_def h table_get_def Let_def get_node_Oop_Jchar [of _ ?h string _ ?h])
  next
    case (Some f)
    with assms(1) miss have "s' = ?s1" by (simp add: intern_eq do_lookup_eq)
    moreover have "live_slot C s ?name" using Some by (simp add: live_slot_def)
    ultimately show ?thesis by simp
  qed
qed

lemma do_value_Inr:
  assumes "SharedStringTransfer_do_value C s string = Inr s'"
  shows "\<not> pending_exception s' \<and> \<not> pending_exception s \<and>
         length (chars string) \<le> resource_left s \<and>
         (\<exists>r. intern C s (Some string) (chars string) = Inr (s', r))"
proof -
  from assms obtain r where i: "intern_oop C s (Some string) = Inr (s', r)"
    and np: "\<not> pending_exception s'"
    by (auto simp: SharedStringTransfer_do_value_def ExceptionMark_def
          split: if_splits sum.splits)
  from intern_oop_Inr [OF i np] np show ?thesis by blast
qed

lemma iterate_Inr:
  assumes "iterate C s entries = Inr s'" "shared_table s = []"
  shows "shared_table s' = [] \<and> grown_from s s' \<and> flags_kept s s' \<and>
         (entries \<noteq> [] \<longrightarrow> \<not> pending_exception s') \<and>
         list_all (\<lambda>e. length (chars (snd e)) \<le> resource_left s) entries \<and>
         list_all (\<lambda>e. live_slot C s' (chars (snd e))) entries"
  using assms
proof (induction entries arbitrary: s)
  case Nil
  then show ?case by simp
next
  case (Cons e es)
  from Cons.prems(1) obtain s1 where v: "SharedStringTransfer_do_value C s (snd e) = Inr s1"
    and rest: "iterate C s1 es = Inr s'"
    by (auto split: sum.splits)
  from do_value_Inr [OF v] obtain r where np1: "\<not> pending_exception s1"
    and fits: "length (chars (snd e)) \<le> resource_left s"
    and i: "intern C s (Some (snd e)) (chars (snd e)) = Inr (s1, r)" by blast
  have fk: "flags_kept s s1" using i by (rule flags_kept_intern)
  have gf: "grown_from s s1" using i by (rule grown_from_intern)
  have sh1: "shared_table s1 = []" using fk Cons.prems(2) by (simp add: flags_kept_def)
  have slot: "live_slot C s1 (chars (snd e))" using i Cons.prems(2) by (rule intern_live_slot)
  from Cons.IH [OF rest sh1] have ih: "shared_table s' = []" "grown_from s1 s'" "flags_kept s1 s'"
    "es \<noteq> [] \<longrightarrow> \<not> pending_exception s'"
    "list_all (\<lambda>e. length (chars (snd e)) \<le> resource_left s1) es"
    "list_all (\<lambda>e. live_slot C s' (chars (snd e))) es"
    by simp_all
  have rl: "resource_left s1 = resource_left s" using fk by (simp add: flags_kept_def)
  have np: "\<not> pending_exception s'"
  proof (cases es)
    case Nil
    with rest np1 show ?thesis by simp
  next
    case (Cons a list)
    with ih(4) show ?thesis by simp
  qed
  have "live_slot C s' (chars (snd e))" using ih(2,3) slot by (rule live_slot_mono)
  with ih fits np rl gf fk show ?case
    by (auto intro: grown_from_trans flags_kept_trans)
qed

lemma first_round_heap:
  assumes "2 \<le> c_heap_left s"
  shows "\<exists>s1 wh s2 inserted warning.
           WeakHandle_new s string_h = Inr (s1, wh) \<and>
           table_insert s1 lookup_f wh = Inr (s2, inserted, warning) \<and>
           c_heap_left s2 = (if inserted then c_heap_left s - 2 else c_heap_left s) \<and>
           pending_exception s2 = pending_exception s"
proof -
  obtain w st where al: "allocate (oop_storage s) string_h = (w, st)"
    by (cases "allocate (oop_storage s) string_h")
  define s1 where "s1 = s\<lparr>oop_storage := st, c_heap_left := c_heap_left s - 1\<rparr>"
  define s1' where "s1' = s1\<lparr>items_count := items_count s + 1, c_heap_left := c_heap_left s - 2\<rparr>"
  have new: "WeakHandle_new s string_h = Inr (s1, w)"
    using assms by (simp add: WeakHandle_new_def al s1_def)
  have alloc: "allocate_node s1 = Inr s1'"
    using assms by (simp add: allocate_node_def item_added_def Let_def s1_def s1'_def)
  let ?t = "local_table s1'"
  let ?i = "bucket_index ?t (get_hash_of lookup_f)"
  show ?thesis
  proof (cases "get_node (oop_storage s1') lookup_f (buckets ?t ?i)")
    case None
    then have "table_insert s1 lookup_f w =
        Inr (s1'\<lparr>local_table := ?t\<lparr>buckets := (buckets ?t)(?i := buckets ?t ?i @ [w])\<rparr>\<rparr>, True,
             grow_hint ?t < length (buckets ?t ?i))"
      by (simp add: table_insert_def alloc Let_def)
    with new show ?thesis by (auto simp: s1'_def s1_def)
  next
    case (Some found)
    then have "table_insert s1 lookup_f w =
        Inr (free_node s1' w, False, grow_hint ?t < length (buckets ?t ?i))"
      by (simp add: table_insert_def alloc Let_def)
    moreover have "c_heap_left (free_node s1' w) = c_heap_left s"
      "pending_exception (free_node s1' w) = pending_exception s"
      using assms by (simp_all add: free_node_def item_removed_def s1'_def s1_def)
    ultimately show ?thesis using new by auto
  qed
qed

lemma do_intern_loop_returns:
  assumes "2 \<le> c_heap_left s"
  shows "\<exists>s' r. do_intern_loop s string_h lookup_f = Inr (s', r) \<and>
           c_heap_left s - 2 \<le> c_heap_left s' \<and> pending_exception s' = pending_exception s"
  using assms
proof (induction s string_h lookup_f rule: do_intern_loop.induct)
  case (1 s string_h lookup_f)
  from first_round_heap [OF "1.prems", of string_h lookup_f]
  obtain s1 wh s2 inserted warning where new: "WeakHandle_new s string_h = Inr (s1, wh)"
    and ins: "table_insert s1 lookup_f wh = Inr (s2, inserted, warning)"
    and heap: "c_heap_left s2 = (if inserted then c_heap_left s - 2 else c_heap_left s)"
    and pend: "pending_exception s2 = pending_exception s"
    by blast
  have upd: "c_heap_left (update_needs_rehash s2 b) = c_heap_left s2"
    "pending_exception (update_needs_rehash s2 b) = pending_exception s2" for b
    by (simp_all add: update_needs_rehash_def)
  show ?case
  proof (cases inserted)
    case True
    have "do_intern_loop s string_h lookup_f =
        Inr (update_needs_rehash s2 warning, resolve (oop_storage s2) wh)"
      using True by (subst do_intern_loop.simps) (simp add: new ins)
    with heap pend True show ?thesis by (simp add: upd)
  next
    case False
    obtain res w' where get: "table_get s2 lookup_f = (res, w')"
      by (cases "table_get s2 lookup_f")
    show ?thesis
    proof (cases res)
      case None
      have eq: "do_intern_loop s string_h lookup_f = do_intern_loop s2 string_h lookup_f"
        using False None get by (subst do_intern_loop.simps) (simp add: new ins)
      have "2 \<le> c_heap_left s2" using heap False "1.prems" by simp
      from "1.IH" [OF new refl ins refl refl False _ _ this, of res w'] get None
      obtain s' r where "do_intern_loop s2 string_h lookup_f = Inr (s', r)"
        "c_heap_left s2 - 2 \<le> c_heap_left s'" "pending_exception s' = pending_exception s2"
        by auto
      with eq heap pend False show ?thesis by simp
    next
      case (Some res_oop)
      have "do_intern_loop s string_h lookup_f =
          Inr (update_needs_rehash s2 w', Some res_oop)"
        using False Some get by (subst do_intern_loop.simps) (simp add: new ins)
      with heap pend False show ?thesis by (simp add: upd)
    qed
  qed
qed

lemma intern_oop_returns:
  assumes "\<not> pending_exception s" "length (chars string) \<le> resource_left s"
    "2 \<le> c_heap_left s"
  shows "\<exists>s' r. intern_oop C s (Some string) = Inr (s', r) \<and> \<not> pending_exception s' \<and>
           c_heap_left s - 2 \<le> c_heap_left s'"
proof -
  let ?name = "chars string"
  let ?h = "hash_string C s ?name (alt_hash s)"
  let ?lk = "StringTableLookupJchar ?h ?name"
  let ?s1 = "update_needs_rehash s (snd (table_get s ?lk))"
  have upd: "c_heap_left ?s1 = c_heap_left s" "pending_exception ?s1 = pending_exception s"
    by (simp_all add: update_needs_rehash_def)
  have "\<exists>s' r. intern C s (Some string) ?name = Inr (s', r) \<and> \<not> pending_exception s' \<and>
           c_heap_left s - 2 \<le> c_heap_left s'"
  proof (cases "CompactHashtable_lookup (shared_table s) ?name (hash_code C ?name)")
    case (Some found)
    with assms(1) show ?thesis by (simp add: intern_eq)
  next
    case None
    show ?thesis
    proof (cases "fst (table_get s ?lk)")
      case (Some f)
      with None assms(1) upd show ?thesis by (simp add: intern_eq do_lookup_eq)
    next
      case None': None
      have "2 \<le> c_heap_left ?s1" using assms(3) upd by simp
      from do_intern_loop_returns [OF this, of string "StringTableLookupOop ?h string"]
      obtain s' r where "do_intern_loop ?s1 string (StringTableLookupOop ?h string) = Inr (s', r)"
        "c_heap_left ?s1 - 2 \<le> c_heap_left s'" "pending_exception s' = pending_exception ?s1"
        by blast
      with None None' assms(1) upd show ?thesis
        by (simp add: intern_eq do_lookup_eq do_intern_def do_intern_insert_def
              java_lang_String_equals_def)
    qed
  qed
  then obtain s' r where i: "intern C s (Some string) ?name = Inr (s', r)"
    and np: "\<not> pending_exception s'" and h: "c_heap_left s - 2 \<le> c_heap_left s'" by blast
  have "intern_oop C s (Some string) = Inr (s', r)"
    using assms(1,2) i np
    by (simp add: intern_oop_def as_unicode_string_def as_unicode_string_or_null_def
          CHECK_NULL_def)
  with np h show ?thesis by blast
qed

lemma iterate_returns:
  assumes "\<not> pending_exception s"
    and "list_all (\<lambda>e. length (chars (snd e)) \<le> resource_left s) entries"
    and "2 * length entries \<le> c_heap_left s"
  shows "\<exists>s'. iterate C s entries = Inr s'"
  using assms
proof (induction entries arbitrary: s)
  case Nil
  then show ?case by simp
next
  case (Cons e es)
  from Cons.prems have fits: "length (chars (snd e)) \<le> resource_left s"
    and heap: "2 \<le> c_heap_left s" by simp_all
  from intern_oop_returns [OF Cons.prems(1) fits heap, of C]
  obtain s1 r where i: "intern_oop C s (Some (snd e)) = Inr (s1, r)"
    and np: "\<not> pending_exception s1" and h: "c_heap_left s - 2 \<le> c_heap_left s1" by blast
  from intern_oop_Inr [OF i np] have "intern C s (Some (snd e)) (chars (snd e)) = Inr (s1, r)"
    by simp
  then have "flags_kept s s1" by (rule flags_kept_intern)
  then have rl: "resource_left s1 = resource_left s" by (simp add: flags_kept_def)
  have v: "SharedStringTransfer_do_value C s (snd e) = Inr s1"
    using i np Cons.prems(1) by (simp add: SharedStringTransfer_do_value_def ExceptionMark_def)
  have "\<exists>s'. iterate C s1 es = Inr s'"
    using np Cons.prems(2,3) h by (intro Cons.IH) (simp_all add: rl)
  with v show ?case by simp
qed

lemma lookup_live_slot:
  assumes "shared_table s = []" "live_slot C s name"
  shows "\<exists>found warning.
           lookup C s name = Inr (update_needs_rehash s warning, Some found) \<and>
           intern C s string_or_null_h name = Inr (update_needs_rehash s warning, Some found) \<and>
           chars found = name"
proof -
  let ?h = "hash_string C s name (alt_hash s)"
  let ?lk = "StringTableLookupJchar ?h name"
  have miss: "CompactHashtable_lookup (shared_table s) name (hash_code C name) = None"
    by (simp add: assms(1) CompactHashtable_lookup_def)
  from assms(2) obtain found where f: "fst (table_get s ?lk) = Some found"
    by (auto simp: live_slot_def)
  then have "get_node (oop_storage s) ?lk
       (buckets (local_table s) (bucket_index (local_table s) ?h)) = Some found"
    by (simp add: table_get_def Let_def)
  from get_node_Some [OF this] have "chars found = name"
    by (auto simp: equals_Jchar simp del: equals.simps split: option.splits if_splits)
  with miss f have "lookup C s name = Inr (update_needs_rehash s (snd (table_get s ?lk)), Some found) \<and>
      intern C s string_or_null_h name =
        Inr (update_needs_rehash s (snd (table_get s ?lk)), Some found) \<and>
      chars found = name"
    by (simp add: lookup_eq intern_eq do_lookup_eq)
  then show ?thesis by blast
qed

lemma rehash_table_shared_table:
  assumes "rehash_table C seed s = Inr s'"
  shows "shared_table s' = shared_table s"
proof (cases "(double_greater (get_load_factor s) PREF_AVG_LIST_LEN \<and>
         \<not> is_max_size_reached (local_table s)) \<or> rehashed s")
  case True
  with assms show ?thesis
    by (auto simp: rehash_table_def trigger_concurrent_work_def split: if_splits)
next
  case False
  with assms obtain s2 ok where d: "do_rehash C (s\<lparr>alt_hash_seed := seed\<rparr>) = Inr (s2, ok)"
    and s': "s' = (if ok then s2\<lparr>rehashed := True, needs_rehashing := False\<rparr>
                   else s2\<lparr>needs_rehashing := False\<rparr>)"
    by (auto simp: rehash_table_def Let_def split: sum.splits bool.splits)
  have "shared_table s2 = shared_table s"
  proof (cases ok)
    case True
    with d do_rehash_True [of C "s\<lparr>alt_hash_seed := seed\<rparr>" s2] show ?thesis by simp
  next
    case False
    with d do_rehash_False [of C "s\<lparr>alt_hash_seed := seed\<rparr>" s2] show ?thesis by auto
  qed
  then show ?thesis by (simp add: s')
qed

lemma call_step_shared_table:
  assumes "call_step C c s = Inr s'"
  shows "shared_table s' = shared_table s"
proof (cases c)
  case (Gc_notification n)
  with assms show ?thesis
    by (auto simp: gc_notification_def trigger_concurrent_work_def Let_def)
next
  case Do_concurrent_work
  with assms obtain s1 where s': "s' = s1\<lparr>has_work := False\<rparr>"
    and "grow C s = Inr s1 \<or> s1 = clean_dead_entries s"
    by (auto simp: do_concurrent_work_def Let_def split: sum.splits if_splits)
  then have "flags_kept s s1"
    using flags_kept_grow [of C s s1] flags_kept_clean_dead_entries [of s] by auto
  with s' show ?thesis by (simp add: flags_kept_def)
next
  case (Rehash_table seed)
  with assms show ?thesis using rehash_table_shared_table [of C seed s s'] by simp
next
  case (Lookup name)
  with assms obtain r where "lookup C s name = Inr (s', r)"
    by (cases "lookup C s name") auto
  then have "flags_kept s s'" by (rule flags_kept_lookup)
  then show ?thesis by (simp add: flags_kept_def)
next
  case (Intern h name)
  with assms obtain r where "intern C s h name = Inr (s', r)"
    by (cases "intern C s h name") auto
  then have "flags_kept s s'" by (rule flags_kept_intern)
  then show ?thesis by (simp add: flags_kept_def)
qed

lemma run_shared_table: "run C cs s = Inr s' \<Longrightarrow> shared_table s' = shared_table s"
proof (induction cs arbitrary: s)
  case Nil
  then show ?case by simp
next
  case (Cons c cs)
  from Cons.prems obtain s1 where 1: "call_step C c s = Inr s1" and 2: "run C cs s1 = Inr s'"
    by (auto split: sum.splits)
  from call_step_shared_table [OF 1] Cons.IH [OF 2] show ?case by simp
qed

lemma iterate_fails:
  assumes "\<not> pending_exception s"
    and "2 * length entries \<le> c_heap_left s"
    and "\<not> list_all (\<lambda>e. length (chars (snd e)) \<le> resource_left s) entries"
  shows "iterate C s entries = Inl Exit_During_Initialization"
  using assms
proof (induction entries arbitrary: s)
  case Nil
  then show ?case by simp
next
  case (Cons e es)
  show ?case
  proof (cases "length (chars (snd e)) \<le> resource_left s")
    case True
    from Cons.prems(2) have heap: "2 \<le> c_heap_left s" by simp
    from intern_oop_returns [OF Cons.prems(1) True heap, of C]
    obtain s1 r where i: "intern_oop C s (Some (snd e)) = Inr (s1, r)"
      and np: "\<not> pending_exception s1" and h: "c_heap_left s - 2 \<le> c_heap_left s1" by blast
    from intern_oop_Inr [OF i np] have "intern C s (Some (snd e)) (chars (snd e)) = Inr (s1, r)"
      by simp
    then have "flags_kept s s1" by (rule flags_kept_intern)
    then have rl: "resource_left s1 = resource_left s" by (simp add: flags_kept_def)
    have v: "SharedStringTransfer_do_value C s (snd e) = Inr s1"
      using i np Cons.prems(1) by (simp add: SharedStringTransfer_do_value_def ExceptionMark_def)
    have "iterate C s1 es = Inl Exit_During_Initialization"
      using np Cons.prems(2,3) h True by (intro Cons.IH) (simp_all add: rl)
    with v show ?thesis by simp
  next
    case False
    then have "intern_oop C s (Some (snd e)) = Inr (s\<lparr>pending_exception := True\<rparr>, None)"
      by (simp add: intern_oop_def as_unicode_string_def as_unicode_string_or_null_def)
    then have "SharedStringTransfer_do_value C s (snd e) = Inl Exit_During_Initialization"
      using Cons.prems(1) by (simp add: SharedStringTransfer_do_value_def ExceptionMark_def)
    then show ?thesis by simp
  qed
qed

lemma transfer_Inr:
  assumes "transfer_shared_strings_to_local_table C s = Inr s'"
  shows "archive_heap_loaded s \<and> \<not> pending_exception s \<and>
         iterate C (s\<lparr>shared_table := []\<rparr>) (shared_table s) = Inr s'"
  using assms
  by (auto simp: transfer_shared_strings_to_local_table_def ExceptionMark_def Let_def
        split: if_splits)

lemma transfer_eq:
  assumes "archive_heap_loaded s" "\<not> pending_exception s"
  shows "transfer_shared_strings_to_local_table C s =
         iterate C (s\<lparr>shared_table := []\<rparr>) (shared_table s)"
  using assms
  by (simp add: transfer_shared_strings_to_local_table_def ExceptionMark_def Let_def)

text \<open>
  C8. When \<^verbatim>\<open>transfer_shared_strings_to_local_table\<close> returns, the archive table is
  empty and stays empty in every run of calls that follows, no exception is pending, every
  entry of the archive table had room in the resource area, and for the characters of every
  entry the local table has a live slot: \<^verbatim>\<open>lookup\<close> and \<^verbatim>\<open>intern\<close> of these characters
  miss the archive table and return the string of that slot, whose characters they are.
  With the archive heap loaded, no exception pending and room in the native heap for a
  handle and a node for each entry, the transfer returns when every entry has room in the
  resource area, and otherwise, \<^verbatim>\<open>intern\<close> having raised an exception, leaves the VM
  with \<^verbatim>\<open>vm_exit_during_initialization\<close>. \<^verbatim>\<open>do_value\<close> leaves the VM so whenever
  \<^verbatim>\<open>intern\<close> returns to it with an exception pending.
\<close>

theorem transfer_drains_archive_table:
  "(\<forall>s'. transfer_shared_strings_to_local_table C s = Inr s' \<longrightarrow>
      shared_table s' = [] \<and> \<not> pending_exception s' \<and>
      (\<forall>calls s''. run C calls s' = Inr s'' \<longrightarrow> shared_table s'' = []) \<and>
      (\<forall>entry \<in> set (shared_table s).
         length (chars (snd entry)) \<le> resource_left s \<and>
         live_slot C s' (chars (snd entry)) \<and>
         (\<forall>string_or_null_h. \<exists>found warning.
            lookup C s' (chars (snd entry)) = Inr (update_needs_rehash s' warning, Some found) \<and>
            intern C s' string_or_null_h (chars (snd entry)) =
              Inr (update_needs_rehash s' warning, Some found) \<and>
            chars found = chars (snd entry)))) \<and>
   (archive_heap_loaded s \<and> \<not> pending_exception s \<and>
    2 * length (shared_table s) \<le> c_heap_left s \<longrightarrow>
      (if list_all (\<lambda>entry. length (chars (snd entry)) \<le> resource_left s) (shared_table s)
       then \<exists>s'. transfer_shared_strings_to_local_table C s = Inr s'
       else transfer_shared_strings_to_local_table C s = Inl Exit_During_Initialization)) \<and>
   (\<forall>s0 string s1 result.
      \<not> pending_exception s0 \<and> intern_oop C s0 (Some string) = Inr (s1, result) \<and>
      pending_exception s1 \<longrightarrow>
      SharedStringTransfer_do_value C s0 string = Inl Exit_During_Initialization)"
proof (intro conjI allI impI)
  fix s'
  assume t: "transfer_shared_strings_to_local_table C s = Inr s'"
  let ?s1 = "s\<lparr>shared_table := []\<rparr>"
  from transfer_Inr [OF t] have np: "\<not> pending_exception s"
    and it: "iterate C ?s1 (shared_table s) = Inr s'" by simp_all
  from iterate_Inr [OF it] have sh: "shared_table s' = []"
    and pe: "shared_table s \<noteq> [] \<longrightarrow> \<not> pending_exception s'"
    and fits: "list_all (\<lambda>e. length (chars (snd e)) \<le> resource_left s) (shared_table s)"
    and live: "list_all (\<lambda>e. live_slot C s' (chars (snd e))) (shared_table s)"
    by simp_all
  show "shared_table s' = []" by (rule sh)
  show "\<not> pending_exception s'"
  proof (cases "shared_table s")
    case Nil
    with it np show ?thesis by auto
  next
    case (Cons a list)
    with pe show ?thesis by simp
  qed
  show "shared_table s'' = []" if "run C calls s' = Inr s''" for calls s''
    using run_shared_table [OF that] sh by simp
  show "\<forall>entry \<in> set (shared_table s).
         length (chars (snd entry)) \<le> resource_left s \<and>
         live_slot C s' (chars (snd entry)) \<and>
         (\<forall>string_or_null_h. \<exists>found warning.
            lookup C s' (chars (snd entry)) = Inr (update_needs_rehash s' warning, Some found) \<and>
            intern C s' string_or_null_h (chars (snd entry)) =
              Inr (update_needs_rehash s' warning, Some found) \<and>
            chars found = chars (snd entry))"
  proof (intro ballI conjI allI)
    fix entry string_or_null_h
    assume e: "entry \<in> set (shared_table s)"
    from fits e show "length (chars (snd entry)) \<le> resource_left s"
      by (simp add: list_all_iff)
    from live e show l: "live_slot C s' (chars (snd entry))" by (simp add: list_all_iff)
    from lookup_live_slot [OF sh l]
    show "\<exists>found warning.
            lookup C s' (chars (snd entry)) = Inr (update_needs_rehash s' warning, Some found) \<and>
            intern C s' string_or_null_h (chars (snd entry)) =
              Inr (update_needs_rehash s' warning, Some found) \<and>
            chars found = chars (snd entry)" .
  qed
next
  assume a: "archive_heap_loaded s \<and> \<not> pending_exception s \<and>
    2 * length (shared_table s) \<le> c_heap_left s"
  let ?s1 = "s\<lparr>shared_table := []\<rparr>"
  have eq: "transfer_shared_strings_to_local_table C s = iterate C ?s1 (shared_table s)"
    using a by (simp add: transfer_eq)
  show "if list_all (\<lambda>entry. length (chars (snd entry)) \<le> resource_left s) (shared_table s)
       then \<exists>s'. transfer_shared_strings_to_local_table C s = Inr s'
       else transfer_shared_strings_to_local_table C s = Inl Exit_During_Initialization"
  proof (cases "list_all (\<lambda>entry. length (chars (snd entry)) \<le> resource_left s) (shared_table s)")
    case True
    have "\<exists>s'. iterate C ?s1 (shared_table s) = Inr s'"
      using a True by (intro iterate_returns) simp_all
    with True eq show ?thesis by simp
  next
    case False
    have "iterate C ?s1 (shared_table s) = Inl Exit_During_Initialization"
      using a False by (intro iterate_fails) simp_all
    with False eq show ?thesis by simp
  qed
next
  fix s0 string s1 result
  assume "\<not> pending_exception s0 \<and> intern_oop C s0 (Some string) = Inr (s1, result) \<and>
      pending_exception s1"
  then show "SharedStringTransfer_do_value C s0 string = Inl Exit_During_Initialization"
    by (simp add: SharedStringTransfer_do_value_def ExceptionMark_def)
qed

theorem transfer_drains_archive_table_witness:
  "transfer_shared_strings_to_local_table example_collab archived = Inr drained \<and>
   shared_table drained = [] \<and> \<not> pending_exception drained \<and>
   live_slot example_collab drained [104, 105] \<and> live_slot example_collab drained [97] \<and>
   lookup example_collab drained [104, 105] = Inr (drained, Some (String_oop 1000 [104, 105])) \<and>
   intern example_collab drained None [97] = Inr (drained, Some (String_oop 1001 [97])) \<and>
   transfer_shared_strings_to_local_table example_collab (archived\<lparr>resource_left := 1\<rparr>) =
     Inl Exit_During_Initialization"
proof -
  have c: "ceil_log2 2 = 1" by (simp add: ceil_log2_def compute_bitlen)
  have sh: "shared_table archived = [(3329, String_oop 1000 [104, 105]), (97, String_oop 1001 [97])]"
    "archive_heap_loaded archived" "\<not> pending_exception archived" "c_heap_left archived = 8"
    "resource_left archived = 8"
    by (simp_all add: archived_def create_table_def vm_start_def Let_def)
  have t: "transfer_shared_strings_to_local_table example_collab archived = Inr drained"
    by (simp add: transfer_shared_strings_to_local_table_def ExceptionMark_def archived_def
          drained_def SharedStringTransfer_do_value_def intern_oop_def as_unicode_string_def
          as_unicode_string_or_null_def CHECK_NULL_def intern_eq do_lookup_eq
          CompactHashtable_lookup_def hash_string_def example_collab_def table_get_def
          do_intern_def do_intern_insert_def java_lang_String_equals_def do_intern_loop.simps
          WeakHandle_new_def allocate_def table_insert_def allocate_node_def item_added_def
          fresh_handle_def create_table_def vm_start_def new_StringTableHash_def c Let_def
          bucket_index_def create_weak_def update_needs_rehash_def REHASH_LEN_def peek_def
          resolve_def java_lang_String_equals_oop_def fun_eq_iff)
  have d: "shared_table drained = []" "alt_hash drained = False"
    "needs_rehashing drained = False" "pending_exception drained = False"
    "local_table drained =
       (new_StringTableHash 1 END_SIZE REHASH_LEN)\<lparr>buckets := (\<lambda>i. [])(1 := [1, 2])\<rparr>"
    "oop_storage drained =
       \<lparr>cells = [(2, Some (String_oop 1001 [97])), (1, Some (String_oop 1000 [104, 105]))],
        released = []\<rparr>"
    by (simp_all add: drained_def archived_def create_table_def vm_start_def Let_def)
  have u: "update_needs_rehash drained False = drained"
    by (simp add: update_needs_rehash_def d)
  have l: "lookup example_collab drained [104, 105] =
      Inr (drained, Some (String_oop 1000 [104, 105]))"
    by (simp add: lookup_eq do_lookup_eq CompactHashtable_lookup_def d hash_string_def
          example_collab_def table_get_def new_StringTableHash_def bucket_index_def peek_def
          REHASH_LEN_def Let_def u java_lang_String_equals_def resolve_def)
  have i: "intern example_collab drained None [97] = Inr (drained, Some (String_oop 1001 [97]))"
    by (simp add: intern_eq do_lookup_eq CompactHashtable_lookup_def d hash_string_def
          example_collab_def table_get_def new_StringTableHash_def bucket_index_def peek_def
          REHASH_LEN_def Let_def u java_lang_String_equals_def resolve_def)
  show ?thesis
    using transfer_drains_archive_table [of example_collab archived]
      transfer_drains_archive_table [of example_collab "archived\<lparr>resource_left := 1\<rparr>"]
    by (simp add: sh t l i d)
qed


end
